theory Spec2Isabelle
  imports Main
begin

section \<open>Data model\<close>

text \<open>
  The program under study is \<^verbatim>\<open>.github/scripts/embed.py\<close>: it reads a PDF page by
  page, embeds each page's text and stores one row per non-blank page in the SQLite
  table \<^verbatim>\<open>Documents\<close>.

  A row of \<^verbatim>\<open>Documents (id INTEGER PRIMARY KEY, filename TEXT, page INTEGER,
  text TEXT, embedding TEXT)\<close>. The columns \<^verbatim>\<open>id\<close> and \<^verbatim>\<open>text\<close> are named
  \<open>rowid\<close> and \<open>page_text\<close> here. Python integers are unbounded, hence \<open>int\<close>;
  strings are lists of characters in the range U+0000 .. U+00FF.
\<close>

record row =
  rowid :: int
  filename :: string
  page :: int
  page_text :: string
  embedding :: string

text \<open>
  What a path of the file system may hold: a document that \<^verbatim>\<open>fitz.open\<close> can read,
  given by the raw text of its pages in page order; an SQLite database, whose
  \<^verbatim>\<open>Documents\<close> table is absent (\<open>None\<close>) or holds the committed rows in insertion
  order; or anything else. A path that maps to \<open>None\<close> does not exist.
\<close>

datatype entry = PdfFile "string list" | DbFile "row list option" | OtherFile

text \<open>Exceptions that end the run, named after what Python raises.\<close>

datatype error =
    FileDataError          \<comment> \<open>\<^verbatim>\<open>fitz.open\<close> cannot read the file\<close>
  | ModelLoadError         \<comment> \<open>\<^verbatim>\<open>SentenceTransformer(...)\<close> raises\<close>
  | InferenceError         \<comment> \<open>\<^verbatim>\<open>model.encode\<close> raises\<close>
  | ZeroDivisionError      \<comment> \<open>\<^verbatim>\<open>page_number % 0\<close>\<close>
  | DatabaseError          \<comment> \<open>the file is not a database\<close>
  | OperationalError       \<comment> \<open>no table \<^verbatim>\<open>Documents\<close>, or no unused id is found\<close>
  | ProgrammingError       \<comment> \<open>the connection is closed\<close>

text \<open>The lines the program prints, one constructor per format string.\<close>

datatype msg =
    MsgUsage                     \<comment> \<open>\<^verbatim>\<open>Usage: python3 pdf_embedder.py <pdf_file_path>\<close>\<close>
  | MsgNotExist string           \<comment> \<open>\<^verbatim>\<open>PDF file '{pdf_file}' does not exist.\<close>\<close>
  | MsgLoading                   \<comment> \<open>\<^verbatim>\<open>Loading embedding model (all-MiniLM-L6-v2)...\<close>\<close>
  | MsgLoaded                    \<comment> \<open>\<^verbatim>\<open>Embedding model loaded.\<close>\<close>
  | MsgProcessingPdf string int  \<comment> \<open>\<^verbatim>\<open>Processing PDF: {file_name} with {num_pages} pages.\<close>\<close>
  | MsgSkipping int              \<comment> \<open>\<^verbatim>\<open>Page {page_number} has no text. Skipping.\<close>\<close>
  | MsgPage int int              \<comment> \<open>\<^verbatim>\<open>Processing page {page_number}/{num_pages}...\<close>\<close>
  | MsgCommitted int             \<comment> \<open>\<^verbatim>\<open>Committed records up to page {page_number}.\<close>\<close>
  | MsgFinished string           \<comment> \<open>\<^verbatim>\<open>Finished processing PDF: {file_name}.\<close>\<close>
  | MsgSaved string              \<comment> \<open>\<^verbatim>\<open>Embeddings saved to {db_path}.\<close>\<close>

text \<open>
  Every call the program makes to the outside is recorded, in order: the trace is what
  an observer of the process sees. The world also holds the one source of chance the
  program meets: \<open>probe\<close>, the outcome of SQLite's random search for an unused id in
  a table whose largest id is \<open>2^63 - 1\<close> (see \<open>next_rowid\<close>).
\<close>

datatype event =
    Print msg
  | LoadModel                          \<comment> \<open>\<^verbatim>\<open>SentenceTransformer(...)\<close>\<close>
  | Connect string                     \<comment> \<open>\<^verbatim>\<open>sqlite3.connect(db_path)\<close>\<close>
  | CreateTable                        \<comment> \<open>\<^verbatim>\<open>CREATE TABLE IF NOT EXISTS Documents\<close>\<close>
  | FitzOpen string                    \<comment> \<open>\<^verbatim>\<open>fitz.open(pdf_path)\<close>\<close>
  | Encode string                      \<comment> \<open>\<^verbatim>\<open>model.encode(text)\<close>\<close>
  | Insert string int string string    \<comment> \<open>\<^verbatim>\<open>INSERT INTO Documents ... VALUES (?, ?, ?, ?)\<close>\<close>
  | Commit                             \<comment> \<open>\<^verbatim>\<open>conn.commit()\<close>\<close>
  | Close                              \<comment> \<open>\<^verbatim>\<open>conn.close()\<close>\<close>

record world =
  fs :: "string \<Rightarrow> entry option"
  trace :: "event list"
  probe :: "row list \<Rightarrow> int option"

text \<open>
  An \<^verbatim>\<open>sqlite3.Connection\<close>: the database it is bound to, the rows inserted in the
  open transaction (not yet durable), and whether it is still open.
\<close>

record conn =
  db_path :: string
  pending :: "row list"
  is_open :: bool

text \<open>
  What \<^verbatim>\<open>model.encode\<close> returns: an array with a \<^verbatim>\<open>tolist\<close> method, or a plain
  sequence. The numbers are left abstract.
\<close>

datatype 'n embedding_vector = NdArray "'n list" | PlainList "'n list"

text \<open>How the process ends: an exit status, or an exception nobody catches.\<close>

datatype outcome = Exit int | Raised error

section \<open>Library functions the program calls\<close>

text \<open>Recording a call at the end of the trace.\<close>

definition emit :: "event \<Rightarrow> world \<Rightarrow> world" where
  "emit e w = w\<lparr>trace := trace w @ [e]\<rparr>"

text \<open>\<^verbatim>\<open>str.isspace\<close> on the characters U+0000 .. U+00FF and \<^verbatim>\<open>str.strip()\<close>.\<close>

definition isspace :: "char \<Rightarrow> bool" where
  "isspace c = (c \<in> set [CHR 0x09, CHR 0x0A, CHR 0x0B, CHR 0x0C, CHR 0x0D,
                          CHR 0x1C, CHR 0x1D, CHR 0x1E, CHR 0x1F, CHR 0x20,
                          CHR 0x85, CHR 0xA0])"

definition strip :: "string \<Rightarrow> string" where
  "strip s = rev (dropWhile isspace (rev (dropWhile isspace s)))"

text \<open>\<^verbatim>\<open>str.split(sep)\<close> for a separator of one character.\<close>

fun split_sep :: "char \<Rightarrow> string \<Rightarrow> string list" where
  "split_sep sep [] = [[]]"
| "split_sep sep (c # cs) =
     (if c = sep then [] # split_sep sep cs
      else (case split_sep sep cs of
              [] \<Rightarrow> [[c]]
            | p # ps \<Rightarrow> (c # p) # ps))"

text \<open>
  \<^verbatim>\<open>Path(p).name\<close> on a POSIX system: pathlib splits the path at \<^verbatim>\<open>/\<close>, drops the
  empty components and the components \<^verbatim>\<open>.\<close>, and the name is the last component
  left, or the empty string when none is left.
\<close>

definition path_parts :: "string \<Rightarrow> string list" where
  "path_parts p = filter (\<lambda>x. x \<noteq> [] \<and> x \<noteq> ''.'') (split_sep CHR ''/'' p)"

definition path_name :: "string \<Rightarrow> string" where
  "path_name p = (if path_parts p = [] then [] else last (path_parts p))"

text \<open>
  The id SQLite gives a row inserted without one into a table with an
  \<^verbatim>\<open>INTEGER PRIMARY KEY\<close> (the schema has no \<^verbatim>\<open>AUTOINCREMENT\<close>): 1 in an empty
  table, otherwise the largest id present plus one, as long as the largest id is below
  \<open>2^63 - 1\<close>. When the largest id is \<open>2^63 - 1\<close>, SQLite searches at random for a
  positive id that is not in use. \<open>search\<close> is what this search comes up with: the
  row gets that id when it is positive, at most \<open>2^63 - 1\<close> and not in use; otherwise
  the search has failed (\<open>None\<close>), and the insert fails with \<^verbatim>\<open>SQLITE_FULL\<close>.
\<close>

definition next_rowid :: "(row list \<Rightarrow> int option) \<Rightarrow> row list \<Rightarrow> int option" where
  "next_rowid search rows =
     (if rows = [] then Some 1
      else if Max (set (map rowid rows)) < 2 ^ 63 - 1
      then Some (Max (set (map rowid rows)) + 1)
      else (case search rows of
              None \<Rightarrow> None
            | Some i \<Rightarrow>
                if 0 < i \<and> i \<le> 2 ^ 63 - 1 \<and> i \<notin> set (map rowid rows) then Some i
                else None))"

text \<open>
  \<^verbatim>\<open>cur.execute("INSERT INTO Documents (filename, page, text, embedding) VALUES
  (?, ?, ?, ?)", ...)\<close>: the row joins the open transaction. The connection sees the
  committed rows and its own pending ones. \<^verbatim>\<open>SQLITE_FULL\<close> and a missing table
  both reach Python as \<^verbatim>\<open>sqlite3.OperationalError\<close>.
\<close>

definition sql_insert ::
  "string \<Rightarrow> int \<Rightarrow> string \<Rightarrow> string \<Rightarrow> world \<times> conn \<Rightarrow> error option \<times> world \<times> conn" where
  "sql_insert f n t e s =
     (case s of (w, c) \<Rightarrow>
        let w1 = emit (Insert f n t e) w in
        (case fs w (db_path c) of
           Some (DbFile (Some rows)) \<Rightarrow>
             (case next_rowid (probe w) (rows @ pending c) of
                None \<Rightarrow> (Some OperationalError, w1, c)
              | Some i \<Rightarrow>
                  (None, w1,
                   c\<lparr>pending := pending c @
                      [\<lparr>rowid = i, filename = f, page = n, page_text = t, embedding = e\<rparr>]\<rparr>))
         | Some (DbFile None) \<Rightarrow> (Some OperationalError, w1, c)
         | _ \<Rightarrow> (Some DatabaseError, w1, c)))"

text \<open>\<^verbatim>\<open>conn.commit()\<close>: the pending rows become durable.\<close>

definition sql_commit :: "world \<times> conn \<Rightarrow> world \<times> conn" where
  "sql_commit s =
     (case s of (w, c) \<Rightarrow>
        let w1 = emit Commit w in
        (case fs w (db_path c) of
           Some (DbFile (Some rows)) \<Rightarrow>
             (w1\<lparr>fs := (fs w1)(db_path c \<mapsto> DbFile (Some (rows @ pending c)))\<rparr>,
              c\<lparr>pending := []\<rparr>)
         | _ \<Rightarrow> (w1, c\<lparr>pending := []\<rparr>)))"

text \<open>\<^verbatim>\<open>conn.close()\<close>: rows still pending are dropped.\<close>

definition sql_close :: "world \<times> conn \<Rightarrow> world \<times> conn" where
  "sql_close s = (case s of (w, c) \<Rightarrow> (emit Close w, c\<lparr>pending := [], is_open := False\<rparr>))"

text \<open>\<^verbatim>\<open>embedding_vector.tolist() if hasattr(embedding_vector, 'tolist') else embedding_vector\<close>\<close>

fun embedding_list :: "'n embedding_vector \<Rightarrow> 'n list" where
  "embedding_list (NdArray xs) = xs"
| "embedding_list (PlainList xs) = xs"

section \<open>The program\<close>

text \<open>
  \<^verbatim>\<open>init_db(db_path)\<close>. \<^verbatim>\<open>sqlite3.connect\<close> creates the file when it is absent;
  \<^verbatim>\<open>CREATE TABLE IF NOT EXISTS\<close> raises on a file that is not a database, creates
  the empty table when there is none and leaves an existing one alone.
\<close>

definition init_db :: "string \<Rightarrow> world \<Rightarrow> (error + conn) \<times> world" where
  "init_db path w =
     (let w1 = emit (Connect path) w;
          w2 = (case fs w1 path of
                  None \<Rightarrow> w1\<lparr>fs := (fs w1)(path \<mapsto> DbFile None)\<rparr>
                | Some _ \<Rightarrow> w1);
          c = \<lparr>db_path = path, pending = [], is_open = True\<rparr>;
          w3 = emit CreateTable w2
      in (case fs w3 path of
            Some (DbFile None) \<Rightarrow>
              (case sql_commit (w3\<lparr>fs := (fs w3)(path \<mapsto> DbFile (Some []))\<rparr>, c) of
                 (w4, c4) \<Rightarrow> (Inr c4, w4))
          | Some (DbFile (Some rows)) \<Rightarrow>
              (case sql_commit (w3, c) of (w4, c4) \<Rightarrow> (Inr c4, w4))
          | _ \<Rightarrow> (Inl DatabaseError, w3)))"

text \<open>
  The body of \<^verbatim>\<open>for page_number, page in enumerate(doc, start=1)\<close> in
  \<^verbatim>\<open>process_pdf\<close>, as a recursion over the pages still to come. \<open>model\<close> is
  \<^verbatim>\<open>model.encode\<close> (\<open>None\<close>: it raises) and \<open>dumps\<close> is \<^verbatim>\<open>json.dumps\<close>. A page
  is given by the text that \<^verbatim>\<open>page.get_text("text")\<close> returns. Failures of the disk,
  of \<^verbatim>\<open>get_text\<close> and of \<^verbatim>\<open>json.dumps\<close> are left out.
\<close>

fun pages_loop ::
  "(string \<Rightarrow> 'n embedding_vector option) \<Rightarrow> ('n list \<Rightarrow> string) \<Rightarrow> string \<Rightarrow> int \<Rightarrow> int \<Rightarrow>
   int \<Rightarrow> string list \<Rightarrow> world \<times> conn \<Rightarrow> error option \<times> world \<times> conn" where
  "pages_loop model dumps file_name num_pages commit_interval page_number [] s =
     (None, s)"
| "pages_loop model dumps file_name num_pages commit_interval page_number (raw # rest) s =
     (case s of (w, c) \<Rightarrow>
      let text = strip raw in
      if text = [] then
        pages_loop model dumps file_name num_pages commit_interval (page_number + 1) rest
          (emit (Print (MsgSkipping page_number)) w, c)
      else
        let w1 = emit (Print (MsgPage page_number num_pages)) w;
            w2 = emit (Encode text) w1
        in (case model text of
              None \<Rightarrow> (Some InferenceError, w2, c)
            | Some embedding_vector \<Rightarrow>
                let embedding_json = dumps (embedding_list embedding_vector) in
                (case sql_insert file_name page_number text embedding_json (w2, c) of
                   (Some e, s3) \<Rightarrow> (Some e, s3)
                 | (None, s3) \<Rightarrow>
                     if commit_interval = 0 then (Some ZeroDivisionError, s3)
                     else if page_number mod commit_interval = 0 then
                       (case sql_commit s3 of (w4, c4) \<Rightarrow>
                          pages_loop model dumps file_name num_pages commit_interval
                            (page_number + 1) rest
                            (emit (Print (MsgCommitted page_number)) w4, c4))
                     else
                       pages_loop model dumps file_name num_pages commit_interval
                         (page_number + 1) rest s3)))"

text \<open>\<^verbatim>\<open>process_pdf(pdf_path, model, conn, commit_interval)\<close>.\<close>

definition process_pdf ::
  "(string \<Rightarrow> 'n embedding_vector option) \<Rightarrow> ('n list \<Rightarrow> string) \<Rightarrow> string \<Rightarrow> int \<Rightarrow>
   world \<times> conn \<Rightarrow> error option \<times> world \<times> conn" where
  "process_pdf model dumps pdf_path commit_interval s =
     (case s of (w, c) \<Rightarrow>
      let w1 = emit (FitzOpen pdf_path) w in
      (case fs w pdf_path of
         Some (PdfFile doc) \<Rightarrow>
           if \<not> is_open c then (Some ProgrammingError, w1, c)
           else
             let file_name = path_name pdf_path;
                 num_pages = int (length doc);
                 w2 = emit (Print (MsgProcessingPdf file_name num_pages)) w1
             in (case pages_loop model dumps file_name num_pages commit_interval 1 doc (w2, c) of
                   (Some e, s3) \<Rightarrow> (Some e, s3)
                 | (None, s3) \<Rightarrow>
                     (case sql_commit s3 of (w4, c4) \<Rightarrow>
                        (None, emit (Print (MsgFinished file_name)) w4, c4)))
       | _ \<Rightarrow> (Some FileDataError, w1, c)))"

text \<open>
  \<^verbatim>\<open>main()\<close> on the argument vector \<^verbatim>\<open>sys.argv\<close>. \<open>load\<close> is
  \<^verbatim>\<open>SentenceTransformer('sentence-transformers/all-MiniLM-L6-v2')\<close> (\<open>None\<close>: it
  raises). \<^verbatim>\<open>process_pdf\<close> is called with the default \<^verbatim>\<open>commit_interval = 50\<close>.
\<close>

definition main ::
  "(string \<Rightarrow> 'n embedding_vector option) option \<Rightarrow> ('n list \<Rightarrow> string) \<Rightarrow> string list \<Rightarrow>
   world \<Rightarrow> outcome \<times> world" where
  "main load dumps argv w =
     (if length argv < 2 then (Exit 1, emit (Print MsgUsage) w)
      else
        let pdf_file = argv ! 1 in
        if fs w pdf_file = None then (Exit 1, emit (Print (MsgNotExist pdf_file)) w)
        else
          let w1 = emit LoadModel (emit (Print MsgLoading) w) in
          (case load of
             None \<Rightarrow> (Raised ModelLoadError, w1)
           | Some model \<Rightarrow>
               let w2 = emit (Print MsgLoaded) w1;
                   db_path = ''pdf_embeddings.db''
               in (case init_db db_path w2 of
                     (Inl e, w3) \<Rightarrow> (Raised e, w3)
                   | (Inr c, w3) \<Rightarrow>
                       (case process_pdf model dumps pdf_file 50 (w3, c) of
                          (Some e, w4, c4) \<Rightarrow> (Raised e, w4)
                        | (None, s4) \<Rightarrow>
                            (case sql_close s4 of (w5, c5) \<Rightarrow>
                               (Exit 0, emit (Print (MsgSaved db_path)) w5))))))"

section \<open>Observations used to state the properties\<close>

text \<open>
  The committed rows of the \<^verbatim>\<open>Documents\<close> table in the database at a path, whether
  the table exists, and the rows a connection sees (the committed ones followed by its
  own pending ones).
\<close>

definition stored :: "world \<Rightarrow> string \<Rightarrow> row list" where
  "stored w p = (case fs w p of Some (DbFile (Some rows)) \<Rightarrow> rows | _ \<Rightarrow> [])"

definition has_table :: "world \<Rightarrow> string \<Rightarrow> bool" where
  "has_table w p = (case fs w p of Some (DbFile (Some rows)) \<Rightarrow> True | _ \<Rightarrow> False)"

definition visible :: "world \<times> conn \<Rightarrow> row list" where
  "visible s = stored (fst s) (db_path (snd s)) @ pending (snd s)"

text \<open>
  The largest id of a list of rows, 0 for no rows: \<open>next_rowid\<close> answers this plus
  one as long as it is below \<open>2^63 - 1\<close>.
\<close>

definition top_rowid :: "row list \<Rightarrow> int" where
  "top_rowid rows = (if rows = [] then 0 else Max (set (map rowid rows)))"

text \<open>
  The non-blank pages of a document whose first page has number \<open>n\<close>: each with its
  page number and its trimmed text, in page order. The page and text of a row.
\<close>

fun kept :: "int \<Rightarrow> string list \<Rightarrow> (int \<times> string) list" where
  "kept n [] = []"
| "kept n (raw # rest) =
     (if strip raw = [] then kept (n + 1) rest else (n, strip raw) # kept (n + 1) rest)"

definition page_and_text :: "row \<Rightarrow> int \<times> string" where
  "page_and_text r = (page r, page_text r)"

text \<open>The calls made between two moments of a run, the earlier one first.\<close>

definition events_since :: "world \<Rightarrow> world \<Rightarrow> event list" where
  "events_since w w' = drop (length (trace w)) (trace w')"

text \<open>
  Views of a sequence of calls: the texts handed to the model; the page number and text
  of each insert; the number of commits; the largest number of inserts not yet
  committed at any moment, starting from \<open>u\<close> of them; how many inserts each commit
  makes durable; and whether a call is one of those the page loop makes.
\<close>

fun encoded :: "event list \<Rightarrow> string list" where
  "encoded [] = []"
| "encoded (Encode t # es) = t # encoded es"
| "encoded (e # es) = encoded es"

fun inserted :: "event list \<Rightarrow> (int \<times> string) list" where
  "inserted [] = []"
| "inserted (Insert f n t j # es) = (n, t) # inserted es"
| "inserted (e # es) = inserted es"

definition commit_count :: "event list \<Rightarrow> nat" where
  "commit_count es = length (filter (\<lambda>e. e = Commit) es)"



fun loop_event :: "event \<Rightarrow> bool" where
  "loop_event (Print (MsgSkipping n)) = True"
| "loop_event (Print (MsgPage n np)) = True"
| "loop_event (Print (MsgCommitted n)) = True"
| "loop_event (Encode t) = True"
| "loop_event (Insert f n t j) = True"
| "loop_event Commit = True"
| "loop_event e = False"

text \<open>
  The calls to the store in a sequence of calls: the page number of each insert, and
  each commit.
\<close>

datatype store_call = Inserted int | Committed

fun store_calls :: "event list \<Rightarrow> store_call list" where
  "store_calls [] = []"
| "store_calls (Insert f n t j # es) = Inserted n # store_calls es"
| "store_calls (Commit # es) = Committed # store_calls es"
| "store_calls (e # es) = store_calls es"



section \<open>Concrete inputs\<close>

text \<open>
  A stand-in for the embedding model (the vector of a text is its length), for
  \<^verbatim>\<open>json.dumps\<close> (each number in unary, followed by a comma) and for the parser that
  reads such a string back; an open connection to the store; a row that the store
  already holds; and two file systems in which SQLite's search for an unused id is
  never needed.
\<close>

definition test_model :: "string \<Rightarrow> nat embedding_vector option" where
  "test_model t = Some (NdArray [length t])"

definition test_dumps :: "nat list \<Rightarrow> string" where
  "test_dumps xs = concat (map (\<lambda>n. replicate n CHR ''1'' @ '','') xs)"

definition test_loads :: "string \<Rightarrow> nat list" where
  "test_loads s = map length (butlast (split_sep CHR '','' s))"

definition test_conn :: conn where
  "test_conn = \<lparr>db_path = ''pdf_embeddings.db'', pending = [], is_open = True\<rparr>"

definition old_row :: row where
  "old_row = \<lparr>rowid = 7, filename = ''old.pdf'', page = 1, page_text = ''x'',
               embedding = ''1,''\<rparr>"

definition failing_probe :: "row list \<Rightarrow> int option" where
  "failing_probe rows = None"

definition test_world :: world where
  "test_world =
     \<lparr>fs = [''pdf_embeddings.db'' \<mapsto> DbFile (Some [old_row]),
             ''docs/report.pdf'' \<mapsto> PdfFile [''Intro'', ''  '', '' End ''],
             ''gaps.pdf'' \<mapsto> PdfFile [''a'', [], ''b'', '' '', ''c''],
             ''lead.pdf'' \<mapsto> PdfFile [[], ''a'', ''b'', ''c''],
             ''book.pdf'' \<mapsto> PdfFile [''p1'', ''p2'', ''p3'', ''p4''],
             ''blank.pdf'' \<mapsto> PdfFile [[], '' ''],
             ''notes.txt'' \<mapsto> OtherFile],
      trace = [],
      probe = failing_probe\<rparr>"

definition empty_world :: world where
  "empty_world = \<lparr>fs = Map.empty, trace = [], probe = failing_probe\<rparr>"

text \<open>The pass over the document with blank pages 2 and 4, committing every 2 pages.\<close>

definition gaps_run :: "error option \<times> world \<times> conn" where
  "gaps_run = process_pdf test_model test_dumps ''gaps.pdf'' 2 (test_world, test_conn)"


text \<open>The pass over the document of three pages whose second page is blank.\<close>

definition report_run :: "error option \<times> world \<times> conn" where
  "report_run = process_pdf test_model test_dumps ''docs/report.pdf'' 50 (test_world, test_conn)"

text \<open>A run of the program on a file that exists but is not a document.\<close>

definition notes_run :: "outcome \<times> world" where
  "notes_run = main (Some test_model) test_dumps [''embed.py'', ''notes.txt''] test_world"

text \<open>
  A store whose one row has the largest id there is, \<open>2^63 - 1\<close>, a search for unused
  ids that comes up with 5, 4, 3 and 2 as the table grows from one row to four, and the
  pass over a document of four pages with text into that store.
\<close>

definition top_row :: row where
  "top_row = \<lparr>rowid = 9223372036854775807, filename = ''old.pdf'', page = 1,
               page_text = ''x'', embedding = ''1,''\<rparr>"

definition falling_probe :: "row list \<Rightarrow> int option" where
  "falling_probe rows = Some (6 - int (length rows))"

definition ceiling_world :: world where
  "ceiling_world =
     \<lparr>fs = [''pdf_embeddings.db'' \<mapsto> DbFile (Some [top_row]),
             ''book.pdf'' \<mapsto> PdfFile [''p1'', ''p2'', ''p3'', ''p4'']],
      trace = [],
      probe = falling_probe\<rparr>"

definition ceiling_run :: "error option \<times> world \<times> conn" where
  "ceiling_run = process_pdf test_model test_dumps ''book.pdf'' 50 (ceiling_world, test_conn)"

section \<open>Effects of the store operations\<close>

text \<open>
  What \<open>emit\<close>, \<open>sql_insert\<close> and \<open>sql_commit\<close> do to the file system, to the trace
  and to the rows a connection sees.
\<close>

lemma fs_emit [simp]: "fs (emit e w) = fs w"
  by (simp add: emit_def)

lemma probe_emit [simp]: "probe (emit e w) = probe w"
  by (simp add: emit_def)

lemma trace_emit [simp]: "trace (emit e w) = trace w @ [e]"
  by (simp add: emit_def)

lemma stored_emit [simp]: "stored (emit e w) p = stored w p"
  by (simp add: stored_def)

lemma has_table_emit [simp]: "has_table (emit e w) p = has_table w p"
  by (simp add: has_table_def)

lemma visible_emit [simp]: "visible (emit e w, c) = visible (w, c)"
  by (simp add: visible_def)

lemma events_sinceI: "trace w' = trace w @ ev \<Longrightarrow> events_since w w' = ev"
  by (simp add: events_since_def)

lemma next_rowid_top:
  assumes "top_rowid rows < 2 ^ 63 - 1"
  shows "next_rowid search rows = Some (top_rowid rows + 1)"
proof (cases "rows = []")
  case True
  then show ?thesis by (simp add: next_rowid_def top_rowid_def)
next
  case False
  with assms have "Max (set (map rowid rows)) < 2 ^ 63 - 1"
    by (simp only: top_rowid_def if_False)
  with False show ?thesis
    by (simp only: next_rowid_def top_rowid_def if_False if_True)
qed

lemma top_rowid_ge:
  assumes "r \<in> set rows"
  shows "rowid r \<le> top_rowid rows"
proof -
  from assms have "rows \<noteq> []" by auto
  moreover have "rowid r \<le> Max (set (map rowid rows))"
    using assms by (intro Max_ge) auto
  ultimately show ?thesis by (simp add: top_rowid_def)
qed

lemma next_rowid_unused:
  assumes "next_rowid search rows = Some i"
  shows "i \<notin> set (map rowid rows)"
proof (cases "top_rowid rows < 2 ^ 63 - 1")
  case True
  with assms have i: "i = top_rowid rows + 1" by (simp add: next_rowid_top)
  show ?thesis
  proof
    assume "i \<in> set (map rowid rows)"
    then obtain r where "r \<in> set rows" "rowid r = i" by auto
    with top_rowid_ge [of r rows] i show False by simp
  qed
next
  case False
  then have "rows \<noteq> []" "\<not> Max (set (map rowid rows)) < 2 ^ 63 - 1"
    by (auto simp: top_rowid_def split: if_splits)
  with assms show ?thesis
    by (simp add: next_rowid_def split: option.splits if_splits)
qed

lemma next_rowid_at_ceiling:
  assumes "next_rowid search rows = Some i" and "r \<in> set rows" and "rowid r = 2 ^ 63 - 1"
  shows "0 < i" and "i < rowid r"
proof -
  from assms(2) have ne: "rows \<noteq> []" by auto
  have "rowid r \<le> Max (set (map rowid rows))"
    using assms(2) by (intro Max_ge) auto
  with assms(3) have top: "\<not> Max (set (map rowid rows)) < 2 ^ 63 - 1" by simp
  from assms(1) ne top have i: "0 < i" "i \<le> 2 ^ 63 - 1" "i \<notin> set (map rowid rows)"
    by (simp_all only: next_rowid_def if_False split: option.splits if_splits) auto
  show "0 < i" by (rule i(1))
  from i(3) assms(2) have "i \<noteq> rowid r" by auto
  with i(2) assms(3) show "i < rowid r" by simp
qed

lemma top_rowid_snoc:
  assumes "rowid x = top_rowid rows + 1"
  shows "top_rowid (rows @ [x]) = top_rowid rows + 1"
proof (cases "rows = []")
  case True
  with assms show ?thesis by (simp add: top_rowid_def)
next
  case False
  then have "Max (insert (rowid x) (set (map rowid rows)))
      = max (rowid x) (Max (set (map rowid rows)))"
    by (intro Max_insert) simp_all
  with assms False show ?thesis by (simp add: top_rowid_def)
qed

lemma sql_commit_effect:
  assumes "has_table w (db_path c)" and "sql_commit (w, c) = (w4, c4)"
  shows "stored w4 (db_path c) = visible (w, c)" and "pending c4 = []"
    and "db_path c4 = db_path c" and "is_open c4 = is_open c"
    and "has_table w4 (db_path c)" and "trace w4 = trace w @ [Commit]"
    and "\<And>p. p \<noteq> db_path c \<Longrightarrow> fs w4 p = fs w p"
  using assms
  by (auto simp: sql_commit_def has_table_def stored_def visible_def Let_def
           split: option.splits entry.splits)

lemma sql_commit_visible:
  assumes "has_table w (db_path c)" and "sql_commit (w, c) = (w4, c4)"
  shows "visible (w4, c4) = visible (w, c)"
  using sql_commit_effect(1,2,3) [OF assms] by (simp add: visible_def)

lemma sql_commit_trace:
  assumes "sql_commit (w, c) = (w4, c4)"
  shows "trace w4 = trace w @ [Commit]"
  using assms
  by (auto simp: sql_commit_def Let_def split: option.splits entry.splits)

lemma sql_commit_eq:
  assumes "has_table w (db_path c)"
  shows "sql_commit (w, c) =
     ((emit Commit w)\<lparr>fs := (fs w)(db_path c \<mapsto> DbFile (Some (visible (w, c))))\<rparr>,
      c\<lparr>pending := []\<rparr>)"
  using assms
  by (auto simp: sql_commit_def has_table_def stored_def visible_def Let_def
           split: option.splits entry.splits)

lemma sql_insert_None:
  assumes "sql_insert f n t e (w, c) = (None, s3)"
  obtains i where "has_table w (db_path c)"
    and "next_rowid (probe w) (stored w (db_path c) @ pending c) = Some i"
    and "s3 = (emit (Insert f n t e) w,
               c\<lparr>pending := pending c @
                  [\<lparr>rowid = i, filename = f, page = n, page_text = t, embedding = e\<rparr>]\<rparr>)"
  using assms
  by (auto simp: sql_insert_def stored_def has_table_def Let_def
           split: option.splits entry.splits)

lemma sql_insert_Some:
  assumes "sql_insert f n t e (w, c) = (Some err, s3)"
  shows "s3 = (emit (Insert f n t e) w, c)"
  using assms
  by (auto simp: sql_insert_def Let_def split: option.splits entry.splits)

lemma sql_insert_row:
  assumes "sql_insert f n t e (w, c) = (None, s3)"
  obtains x where "visible s3 = visible (w, c) @ [x]"
    and "has_table (fst s3) (db_path (snd s3))"
    and "db_path (snd s3) = db_path c" and "is_open (snd s3) = is_open c"
    and "page x = n" and "page_text x = t" and "filename x = f" and "embedding x = e"
    and "rowid x \<notin> set (map rowid (visible (w, c)))"
    and "top_rowid (visible (w, c)) < 2 ^ 63 - 1 \<longrightarrow> rowid x = top_rowid (visible (w, c)) + 1"
    and "trace (fst s3) = trace w @ [Insert f n t e]" and "fs (fst s3) = fs w"
proof -
  from assms obtain i where tab: "has_table w (db_path c)"
    and i: "next_rowid (probe w) (stored w (db_path c) @ pending c) = Some i"
    and s3: "s3 = (emit (Insert f n t e) w,
               c\<lparr>pending := pending c @
                  [\<lparr>rowid = i, filename = f, page = n, page_text = t, embedding = e\<rparr>]\<rparr>)"
    by (rule sql_insert_None)
  let ?x = "\<lparr>rowid = i, filename = f, page = n, page_text = t, embedding = e\<rparr>"
  have "visible s3 = visible (w, c) @ [?x]"
    by (simp add: s3 visible_def)
  moreover have "rowid ?x \<notin> set (map rowid (visible (w, c)))"
    using next_rowid_unused [OF i] by (simp add: visible_def)
  moreover have "top_rowid (visible (w, c)) < 2 ^ 63 - 1
      \<longrightarrow> rowid ?x = top_rowid (visible (w, c)) + 1"
    using i next_rowid_top [of "stored w (db_path c) @ pending c" "probe w"]
    by (simp add: visible_def)
  ultimately show ?thesis
    using tab by (intro that [of ?x]) (simp_all add: s3)
qed

lemma sql_insert_trace:
  assumes "sql_insert f n t e (w, c) = (r, s3)"
  shows "trace (fst s3) = trace w @ [Insert f n t e]"
  using assms
  by (auto simp: sql_insert_def Let_def split: option.splits entry.splits)

lemma sql_insert_ok:
  assumes "has_table w (db_path c)" and "top_rowid (visible (w, c)) < 2 ^ 63 - 1"
  obtains s3 where "sql_insert f n t e (w, c) = (None, s3)"
    and "top_rowid (visible s3) = top_rowid (visible (w, c)) + 1"
proof -
  let ?rows = "stored w (db_path c) @ pending c"
  let ?x = "\<lparr>rowid = top_rowid ?rows + 1, filename = f, page = n, page_text = t,
             embedding = e\<rparr>"
  let ?s3 = "(emit (Insert f n t e) w, c\<lparr>pending := pending c @ [?x]\<rparr>)"
  from assms(2) have "next_rowid (probe w) ?rows = Some (top_rowid ?rows + 1)"
    by (simp add: next_rowid_top visible_def)
  with assms(1) have "sql_insert f n t e (w, c) = (None, ?s3)"
    by (auto simp: sql_insert_def has_table_def stored_def Let_def
             split: option.splits entry.splits)
  moreover have "visible ?s3 = ?rows @ [?x]" by (simp add: visible_def)
  then have "top_rowid (visible ?s3) = top_rowid (visible (w, c)) + 1"
    using top_rowid_snoc [of ?x ?rows] by (simp add: visible_def)
  ultimately show ?thesis by (rule that)
qed

lemma sql_insert_eq:
  assumes "has_table w (db_path c)" and "top_rowid (visible (w, c)) < 2 ^ 63 - 1"
  shows "sql_insert f n t e (w, c) =
     (None, emit (Insert f n t e) w,
      c\<lparr>pending := pending c @
         [\<lparr>rowid = top_rowid (visible (w, c)) + 1, filename = f, page = n, page_text = t,
           embedding = e\<rparr>]\<rparr>)"
proof -
  from assms(2) have "next_rowid (probe w) (stored w (db_path c) @ pending c)
      = Some (top_rowid (visible (w, c)) + 1)"
    by (simp add: next_rowid_top visible_def)
  with assms(1) show ?thesis
    by (auto simp: sql_insert_def has_table_def stored_def Let_def
             split: option.splits entry.splits)
qed

section \<open>Trimming and path names\<close>

lemma dropWhile_rev_id: "xs \<noteq> [] \<Longrightarrow> \<not> P (last xs) \<Longrightarrow> dropWhile P (rev xs) = rev xs"
  by (cases xs rule: rev_cases) simp_all

lemma strip_idem: "strip (strip s) = strip s"
proof -
  define t where "t = dropWhile isspace s"
  define u where "u = rev (dropWhile isspace (rev t))"
  have su: "strip s = u" by (simp add: strip_def t_def u_def)
  show ?thesis
  proof (cases "u = []")
    case True
    have "strip [] = []" by (simp add: strip_def)
    with su True show ?thesis by simp
  next
    case False
    then have dne: "dropWhile isspace (rev t) \<noteq> []" by (simp add: u_def)
    then have "\<not> isspace (hd (dropWhile isspace (rev t)))" by (rule hd_dropWhile)
    then have lastu: "\<not> isspace (last u)"
      using dne by (simp add: u_def last_rev)
    have "rev t = takeWhile isspace (rev t) @ dropWhile isspace (rev t)" by simp
    then have "t = u @ rev (takeWhile isspace (rev t))"
      unfolding u_def by (metis rev_append rev_rev_ident)
    with False have hdu: "hd u = hd t" by (metis hd_append2)
    from False have "t \<noteq> []" by (auto simp: u_def)
    then have "\<not> isspace (hd t)" unfolding t_def by (rule hd_dropWhile)
    with hdu False have "dropWhile isspace u = u"
      by (cases u) simp_all
    moreover have "dropWhile isspace (rev u) = rev u"
      using False lastu by (rule dropWhile_rev_id)
    ultimately have "strip u = u" by (simp add: strip_def)
    with su show ?thesis by simp
  qed
qed

lemma split_sep_nonempty: "split_sep sep s \<noteq> []"
  by (induction s) (simp_all split: list.splits)

lemma split_sep_no_sep: "p \<in> set (split_sep sep s) \<Longrightarrow> sep \<notin> set p"
proof (induction s arbitrary: p)
  case Nil
  then show ?case by simp
next
  case (Cons c cs)
  show ?case
  proof (cases "c = sep")
    case True
    with Cons show ?thesis by auto
  next
    case False
    obtain q qs where q: "split_sep sep cs = q # qs"
      using split_sep_nonempty [of sep cs] by (cases "split_sep sep cs") auto
    with Cons.prems False have "p = c # q \<or> p \<in> set qs" by simp
    with Cons.IH q False show ?thesis by auto
  qed
qed

lemma split_sep_single: "sep \<notin> set s \<Longrightarrow> split_sep sep s = [s]"
  by (induction s) auto

lemma split_sep_append: "split_sep sep (a @ sep # b) = split_sep sep a @ split_sep sep b"
proof (induction a)
  case Nil
  then show ?case by simp
next
  case (Cons c cs)
  obtain q qs where q: "split_sep sep cs = q # qs"
    using split_sep_nonempty [of sep cs] by (cases "split_sep sep cs") auto
  with Cons show ?case by simp
qed

lemma test_loads_dumps: "test_loads (test_dumps xs) = xs"
proof (induction xs)
  case Nil
  then show ?case by (simp add: test_loads_def test_dumps_def)
next
  case (Cons n xs)
  have no_comma: "CHR '','' \<notin> set (replicate n CHR ''1'')" by simp
  have "split_sep CHR '','' (test_dumps (n # xs))
      = replicate n CHR ''1'' # split_sep CHR '','' (test_dumps xs)"
    using split_sep_append [of "CHR '',''" "replicate n CHR ''1''" "test_dumps xs"]
      split_sep_single [OF no_comma]
    by (simp add: test_dumps_def)
  with Cons split_sep_nonempty [of "CHR '',''" "test_dumps xs"] show ?case
    by (simp add: test_loads_def)
qed

lemma path_name_no_slash: "CHR ''/'' \<notin> set (path_name p)"
proof (cases "path_parts p = []")
  case True
  then show ?thesis by (simp add: path_name_def)
next
  case False
  then have "last (path_parts p) \<in> set (path_parts p)" by simp
  then have "last (path_parts p) \<in> set (split_sep CHR ''/'' p)"
    by (simp add: path_parts_def)
  from split_sep_no_sep [OF this] False show ?thesis by (simp add: path_name_def)
qed

lemma path_name_base:
  assumes "CHR ''/'' \<notin> set name" and "name \<noteq> []" and "name \<noteq> ''.''"
  shows "path_name (dir @ ''/'' @ name) = name"
proof -
  have "split_sep CHR ''/'' (dir @ ''/'' @ name) = split_sep CHR ''/'' dir @ [name]"
    using split_sep_append [of "CHR ''/''" dir name] split_sep_single [OF assms(1)] by simp
  with assms(2,3) have "path_parts (dir @ ''/'' @ name)
      = filter (\<lambda>x. x \<noteq> [] \<and> x \<noteq> ''.'') (split_sep CHR ''/'' dir) @ [name]"
    by (simp add: path_parts_def)
  then show ?thesis by (simp add: path_name_def)
qed

section \<open>The pages a pass keeps, and views of a trace\<close>

lemma kept_set:
  "(m, t) \<in> set (kept n pages) \<longleftrightarrow>
     (\<exists>i<length pages. m = n + int i \<and> t = strip (pages ! i) \<and> t \<noteq> [])"
proof (induction pages arbitrary: n)
  case Nil
  then show ?case by simp
next
  case (Cons raw rest)
  have shift: "(\<exists>i<length (raw # rest). m = n + int i \<and> t = strip ((raw # rest) ! i) \<and> t \<noteq> [])
      \<longleftrightarrow> (m = n \<and> t = strip raw \<and> t \<noteq> [])
        \<or> (\<exists>i<length rest. m = n + 1 + int i \<and> t = strip (rest ! i) \<and> t \<noteq> [])"
    (is "?L \<longleftrightarrow> ?A \<or> ?B")
  proof
    assume ?L
    then obtain i where i: "i < length (raw # rest)" "m = n + int i"
      "t = strip ((raw # rest) ! i)" "t \<noteq> []" by blast
    show "?A \<or> ?B"
    proof (cases i)
      case 0
      with i show ?thesis by simp
    next
      case (Suc j)
      with i have "j < length rest \<and> m = n + 1 + int j \<and> t = strip (rest ! j) \<and> t \<noteq> []"
        by simp
      then show ?thesis by blast
    qed
  next
    assume "?A \<or> ?B"
    then show ?L
    proof
      assume ?A
      then show ?L by (intro exI [of _ 0]) auto
    next
      assume ?B
      then obtain j where "j < length rest" "m = n + 1 + int j" "t = strip (rest ! j)" "t \<noteq> []"
        by blast
      then show ?L by (intro exI [of _ "Suc j"]) simp
    qed
  qed
  show ?case
  proof (cases "strip raw = []")
    case True
    then show ?thesis unfolding shift using Cons.IH [of "n + 1"] by auto
  next
    case False
    then show ?thesis unfolding shift using Cons.IH [of "n + 1"] by auto
  qed
qed

lemma kept_lower: "x \<in> set (kept n pages) \<Longrightarrow> n \<le> fst x"
  using kept_set [of "fst x" "snd x" n pages] by auto

lemma kept_sorted: "sorted_wrt (<) (map fst (kept n pages))"
proof (induction pages arbitrary: n)
  case Nil
  then show ?case by simp
next
  case (Cons raw rest)
  have "\<forall>x\<in>set (kept (n + 1) rest). n < fst x"
    using kept_lower [of _ "n + 1" rest] by fastforce
  with Cons.IH [of "n + 1"] show ?case by simp
qed

lemma kept_texts: "map snd (kept n pages) = filter (\<lambda>t. t \<noteq> []) (map strip pages)"
  by (induction pages arbitrary: n) simp_all

lemma kept_no_blank:
  "\<forall>raw\<in>set pages. strip raw \<noteq> [] \<Longrightarrow>
     map fst (kept n pages) = [n..n + int (length pages) - 1]"
proof (induction pages arbitrary: n)
  case Nil
  then show ?case by simp
next
  case (Cons raw rest)
  then have "map fst (kept (n + 1) rest) = [n + 1..n + 1 + int (length rest) - 1]"
    by simp
  with Cons.prems show ?case
    by (simp add: upto_rec1 [of n] algebra_simps)
qed

lemma page_of_page_and_text: "map page new = map fst (map page_and_text new)"
  by (simp add: page_and_text_def comp_def)

lemma encoded_append: "encoded (xs @ ys) = encoded xs @ encoded ys"
  by (induction xs rule: encoded.induct) simp_all

lemma inserted_append: "inserted (xs @ ys) = inserted xs @ inserted ys"
  by (induction xs rule: inserted.induct) simp_all

lemma commit_count_simps [simp]:
  "commit_count [] = 0"
  "commit_count (Commit # es) = Suc (commit_count es)"
  "commit_count (Print m # es) = commit_count es"
  "commit_count (Encode t # es) = commit_count es"
  "commit_count (Insert f n t j # es) = commit_count es"
  "commit_count (FitzOpen p # es) = commit_count es"
  "commit_count (es @ es') = commit_count es + commit_count es'"
  by (simp_all add: commit_count_def)


lemma loop_event_not_other:
  assumes "\<forall>e\<in>set ev. loop_event e"
  shows "Close \<notin> set ev" and "Connect p \<notin> set ev" and "Print (MsgFinished f) \<notin> set ev"
    and "FitzOpen p \<notin> set ev"
  using assms by auto



lemma all_less_Cons:
  assumes "P 0" and "\<forall>j<length rest. P (Suc j)"
  shows "\<forall>i<length (raw # rest). P i"
proof (intro allI impI)
  fix i assume "i < length (raw # rest)"
  with assms show "P i" by (cases i) simp_all
qed

section \<open>The page loop\<close>

text \<open>
  A run of the loop is one of seven cases: no page left, a blank page, one of three
  failures on a page with text, or a page inserted with or without a commit. The rule
  below is induction over a run, and each property of the loop is proved with it.
\<close>

lemma pages_loop_run_induct [consumes 1, case_names Done Skip EncodeFail InsertFail ZeroDiv CommitStep Step]:
  assumes run: "pages_loop M D f np k n pages s = (r, s')"
    and Done: "\<And>n s. P n [] s None s"
    and Skip: "\<And>n raw rest w c r s'.
        strip raw = [] \<Longrightarrow>
        pages_loop M D f np k (n + 1) rest (emit (Print (MsgSkipping n)) w, c) = (r, s') \<Longrightarrow>
        P (n + 1) rest (emit (Print (MsgSkipping n)) w, c) r s' \<Longrightarrow>
        P n (raw # rest) (w, c) r s'"
    and EncodeFail: "\<And>n raw rest w c.
        strip raw \<noteq> [] \<Longrightarrow> M (strip raw) = None \<Longrightarrow>
        P n (raw # rest) (w, c) (Some InferenceError)
          (emit (Encode (strip raw)) (emit (Print (MsgPage n np)) w), c)"
    and InsertFail: "\<And>n raw rest w c v e s3.
        strip raw \<noteq> [] \<Longrightarrow> M (strip raw) = Some v \<Longrightarrow>
        sql_insert f n (strip raw) (D (embedding_list v))
          (emit (Encode (strip raw)) (emit (Print (MsgPage n np)) w), c) = (Some e, s3) \<Longrightarrow>
        P n (raw # rest) (w, c) (Some e) s3"
    and ZeroDiv: "\<And>n raw rest w c v s3.
        strip raw \<noteq> [] \<Longrightarrow> M (strip raw) = Some v \<Longrightarrow>
        sql_insert f n (strip raw) (D (embedding_list v))
          (emit (Encode (strip raw)) (emit (Print (MsgPage n np)) w), c) = (None, s3) \<Longrightarrow>
        k = 0 \<Longrightarrow>
        P n (raw # rest) (w, c) (Some ZeroDivisionError) s3"
    and CommitStep: "\<And>n raw rest w c v s3 w4 c4 r s'.
        strip raw \<noteq> [] \<Longrightarrow> M (strip raw) = Some v \<Longrightarrow>
        sql_insert f n (strip raw) (D (embedding_list v))
          (emit (Encode (strip raw)) (emit (Print (MsgPage n np)) w), c) = (None, s3) \<Longrightarrow>
        k \<noteq> 0 \<Longrightarrow> n mod k = 0 \<Longrightarrow> sql_commit s3 = (w4, c4) \<Longrightarrow>
        pages_loop M D f np k (n + 1) rest (emit (Print (MsgCommitted n)) w4, c4) = (r, s') \<Longrightarrow>
        P (n + 1) rest (emit (Print (MsgCommitted n)) w4, c4) r s' \<Longrightarrow>
        P n (raw # rest) (w, c) r s'"
    and Step: "\<And>n raw rest w c v s3 r s'.
        strip raw \<noteq> [] \<Longrightarrow> M (strip raw) = Some v \<Longrightarrow>
        sql_insert f n (strip raw) (D (embedding_list v))
          (emit (Encode (strip raw)) (emit (Print (MsgPage n np)) w), c) = (None, s3) \<Longrightarrow>
        k \<noteq> 0 \<Longrightarrow> n mod k \<noteq> 0 \<Longrightarrow>
        pages_loop M D f np k (n + 1) rest s3 = (r, s') \<Longrightarrow>
        P (n + 1) rest s3 r s' \<Longrightarrow>
        P n (raw # rest) (w, c) r s'"
  shows "P n pages s r s'"
  using run
proof (induction pages arbitrary: n s)
  case Nil
  then show ?case using Done by simp
next
  case (Cons raw rest)
  obtain w c where s: "s = (w, c)" by (cases s)
  show ?case
  proof (cases "strip raw = []")
    case True
    with Cons.prems s
    have run': "pages_loop M D f np k (n + 1) rest (emit (Print (MsgSkipping n)) w, c) = (r, s')"
      by simp
    from Skip [OF True run' Cons.IH [OF run']] s show ?thesis by simp
  next
    case ne: False
    let ?w2 = "emit (Encode (strip raw)) (emit (Print (MsgPage n np)) w)"
    show ?thesis
    proof (cases "M (strip raw)")
      case None
      with Cons.prems s ne have "r = Some InferenceError" "s' = (?w2, c)"
        by (simp_all add: Let_def)
      with EncodeFail [OF ne None] s show ?thesis by simp
    next
      case (Some v)
      obtain e s3 where ins:
        "sql_insert f n (strip raw) (D (embedding_list v)) (?w2, c) = (e, s3)"
        by (cases "sql_insert f n (strip raw) (D (embedding_list v)) (?w2, c)")
      show ?thesis
      proof (cases e)
        case (Some err)
        with Cons.prems s ne \<open>M (strip raw) = Some v\<close> ins
        have "r = Some err" "s' = s3" by (simp_all add: Let_def)
        with InsertFail [OF ne \<open>M (strip raw) = Some v\<close> ins [unfolded Some]] s
        show ?thesis by simp
      next
        case None
        note ins' = ins [unfolded None]
        show ?thesis
        proof (cases "k = 0")
          case True
          with Cons.prems s ne \<open>M (strip raw) = Some v\<close> ins'
          have "r = Some ZeroDivisionError" "s' = s3" by (simp_all add: Let_def)
          with ZeroDiv [OF ne \<open>M (strip raw) = Some v\<close> ins' True] s
          show ?thesis by simp
        next
          case k: False
          show ?thesis
          proof (cases "n mod k = 0")
            case True
            obtain w4 c4 where cm: "sql_commit s3 = (w4, c4)" by (cases "sql_commit s3")
            with Cons.prems s ne \<open>M (strip raw) = Some v\<close> ins' k True
            have run': "pages_loop M D f np k (n + 1) rest
                          (emit (Print (MsgCommitted n)) w4, c4) = (r, s')"
              by (simp add: Let_def)
            from CommitStep [OF ne \<open>M (strip raw) = Some v\<close> ins' k True cm run'
                Cons.IH [OF run']] s
            show ?thesis by simp
          next
            case False
            with Cons.prems s ne \<open>M (strip raw) = Some v\<close> ins' k
            have run': "pages_loop M D f np k (n + 1) rest s3 = (r, s')"
              by (simp add: Let_def)
            from Step [OF ne \<open>M (strip raw) = Some v\<close> ins' k False run' Cons.IH [OF run']] s
            show ?thesis by simp
          qed
        qed
      qed
    qed
  qed
qed

lemma pages_loop_rows:
  assumes "pages_loop M D f np k n pages s = (r, s')"
    and "has_table (fst s) (db_path (snd s))"
  shows "\<exists>new. visible s' = visible s @ new
           \<and> has_table (fst s') (db_path (snd s'))
           \<and> db_path (snd s') = db_path (snd s)
           \<and> is_open (snd s') = is_open (snd s)
           \<and> map page_and_text new = take (length new) (kept n pages)
           \<and> (r = None \<longrightarrow> map page_and_text new = kept n pages)
           \<and> (\<forall>x\<in>set new. filename x = f)
           \<and> (\<forall>x\<in>set new. \<exists>v. M (page_text x) = Some v \<and> embedding x = D (embedding_list v))
           \<and> (distinct (map rowid (visible s)) \<longrightarrow> distinct (map rowid (visible s')))"
  using assms
proof (induction rule: pages_loop_run_induct)
  case (Done n s)
  then show ?case by simp
next
  case (Skip n raw rest w c r s')
  then show ?case by simp
next
  case (EncodeFail n raw rest w c)
  then show ?case by simp
next
  case (InsertFail n raw rest w c v e s3)
  from sql_insert_Some [OF InsertFail(3)] InsertFail(4) show ?case by simp
next
  case (ZeroDiv n raw rest w c v s3)
  from ZeroDiv(3) obtain x where x: "visible s3 = visible (w, c) @ [x]"
    "has_table (fst s3) (db_path (snd s3))"
    "db_path (snd s3) = db_path c" "is_open (snd s3) = is_open c"
    "page x = n" "page_text x = strip raw" "filename x = f"
    "embedding x = D (embedding_list v)"
    "rowid x \<notin> set (map rowid (visible (w, c)))"
    by (rule sql_insert_row) simp
  have px: "page_and_text x = (n, strip raw)"
    using x by (simp add: page_and_text_def)
  from x(1-4,6-9) px ZeroDiv(1,2) show ?case
    by (intro exI [of _ "[x]"]) simp
next
  case (CommitStep n raw rest w c v s3 w4 c4 r s')
  from CommitStep(3) obtain x where x: "visible s3 = visible (w, c) @ [x]"
    "has_table (fst s3) (db_path (snd s3))"
    "db_path (snd s3) = db_path c" "is_open (snd s3) = is_open c"
    "page x = n" "page_text x = strip raw" "filename x = f"
    "embedding x = D (embedding_list v)"
    "rowid x \<notin> set (map rowid (visible (w, c)))"
    by (rule sql_insert_row) simp
  obtain w3 c3 where s3: "s3 = (w3, c3)" by (cases s3)
  from x(2) CommitStep(6) s3
  have cm: "visible (w4, c4) = visible s3" "has_table w4 (db_path c3)"
    "db_path c4 = db_path c3" "is_open c4 = is_open c3"
    using sql_commit_visible [of w3 c3 w4 c4] sql_commit_effect(3,4,5) [of w3 c3 w4 c4]
    by simp_all
  let ?s4 = "(emit (Print (MsgCommitted n)) w4, c4)"
  have "has_table (fst ?s4) (db_path (snd ?s4))" using cm by simp
  from CommitStep.IH [OF this] obtain new where new:
    "visible s' = visible ?s4 @ new"
    "has_table (fst s') (db_path (snd s'))"
    "db_path (snd s') = db_path (snd ?s4)" "is_open (snd s') = is_open (snd ?s4)"
    "map page_and_text new = take (length new) (kept (n + 1) rest)"
    "r = None \<longrightarrow> map page_and_text new = kept (n + 1) rest"
    "\<forall>y\<in>set new. filename y = f"
    "\<forall>y\<in>set new. \<exists>v. M (page_text y) = Some v \<and> embedding y = D (embedding_list v)"
    "distinct (map rowid (visible ?s4)) \<longrightarrow> distinct (map rowid (visible s'))"
    by blast
  note new = new [simplified, unfolded cm]
  have px: "page_and_text x = (n, strip raw)"
    using x by (simp add: page_and_text_def)
  have dist: "distinct (map rowid (visible (w, c))) \<longrightarrow> distinct (map rowid (visible s'))"
    using new(9) x(1,9) by simp
  have emb: "\<forall>y\<in>set (x # new). \<exists>v. M (page_text y) = Some v
      \<and> embedding y = D (embedding_list v)"
    using new(8) x(6,8) CommitStep(2) by simp
  from new(1-7) x(1-4,7) px s3 CommitStep(1) dist emb show ?case
    by (intro exI [of _ "x # new"]) simp
next
  case (Step n raw rest w c v s3 r s')
  from Step(3) obtain x where x: "visible s3 = visible (w, c) @ [x]"
    "has_table (fst s3) (db_path (snd s3))"
    "db_path (snd s3) = db_path c" "is_open (snd s3) = is_open c"
    "page x = n" "page_text x = strip raw" "filename x = f"
    "embedding x = D (embedding_list v)"
    "rowid x \<notin> set (map rowid (visible (w, c)))"
    by (rule sql_insert_row) simp
  from Step.IH [OF x(2)] obtain new where new:
    "visible s' = visible s3 @ new"
    "has_table (fst s') (db_path (snd s'))"
    "db_path (snd s') = db_path (snd s3)" "is_open (snd s') = is_open (snd s3)"
    "map page_and_text new = take (length new) (kept (n + 1) rest)"
    "r = None \<longrightarrow> map page_and_text new = kept (n + 1) rest"
    "\<forall>y\<in>set new. filename y = f"
    "\<forall>y\<in>set new. \<exists>v. M (page_text y) = Some v \<and> embedding y = D (embedding_list v)"
    "distinct (map rowid (visible s3)) \<longrightarrow> distinct (map rowid (visible s'))"
    by blast
  have px: "page_and_text x = (n, strip raw)"
    using x by (simp add: page_and_text_def)
  have dist: "distinct (map rowid (visible (w, c))) \<longrightarrow> distinct (map rowid (visible s'))"
    using new(9) x(1,9) by simp
  have emb: "\<forall>y\<in>set (x # new). \<exists>v. M (page_text y) = Some v
      \<and> embedding y = D (embedding_list v)"
    using new(8) x(6,8) Step(2) by simp
  from new(1-7) x(1-4,7) px Step(1) dist emb show ?case
    by (intro exI [of _ "x # new"]) simp
qed

lemma pages_loop_ids:
  assumes "pages_loop M D f np k n pages s = (r, s')"
    and "has_table (fst s) (db_path (snd s))"
    and "top_rowid (visible s) + int (length pages) < 2 ^ 63"
  shows "\<exists>new. visible s' = visible s @ new
           \<and> sorted_wrt (<) (map rowid new)
           \<and> (\<forall>old\<in>set (visible s). \<forall>x\<in>set new. rowid old < rowid x)"
  using assms
proof (induction rule: pages_loop_run_induct)
  case (Done n s)
  then show ?case by simp
next
  case (Skip n raw rest w c r s')
  then show ?case by simp
next
  case (EncodeFail n raw rest w c)
  then show ?case by simp
next
  case (InsertFail n raw rest w c v e s3)
  from sql_insert_Some [OF InsertFail(3)] show ?case by simp
next
  case (ZeroDiv n raw rest w c v s3)
  from ZeroDiv(3) obtain x where x: "visible s3 = visible (w, c) @ [x]"
    "top_rowid (visible (w, c)) < 2 ^ 63 - 1 \<longrightarrow> rowid x = top_rowid (visible (w, c)) + 1"
    by (rule sql_insert_row) simp
  with ZeroDiv.prems(2) have id: "rowid x = top_rowid (visible (w, c)) + 1" by simp
  have "\<forall>old\<in>set (visible (w, c)). rowid old < rowid x"
    using top_rowid_ge [of _ "visible (w, c)"] id by fastforce
  with x(1) show ?case by (intro exI [of _ "[x]"]) simp
next
  case (CommitStep n raw rest w c v s3 w4 c4 r s')
  from CommitStep(3) obtain x where x: "visible s3 = visible (w, c) @ [x]"
    "has_table (fst s3) (db_path (snd s3))"
    "top_rowid (visible (w, c)) < 2 ^ 63 - 1 \<longrightarrow> rowid x = top_rowid (visible (w, c)) + 1"
    by (rule sql_insert_row) simp
  with CommitStep.prems(2) have id: "rowid x = top_rowid (visible (w, c)) + 1" by simp
  have old: "\<forall>old\<in>set (visible (w, c)). rowid old < rowid x"
    using top_rowid_ge [of _ "visible (w, c)"] id by fastforce
  have top: "top_rowid (visible s3) = top_rowid (visible (w, c)) + 1"
    unfolding x(1) using id by (rule top_rowid_snoc)
  obtain w3 c3 where s3: "s3 = (w3, c3)" by (cases s3)
  from x(2) CommitStep(6) s3
  have cm: "visible (w4, c4) = visible s3" "has_table w4 (db_path c3)"
    "db_path c4 = db_path c3"
    using sql_commit_visible [of w3 c3 w4 c4] sql_commit_effect(3,5) [of w3 c3 w4 c4]
    by simp_all
  let ?s4 = "(emit (Print (MsgCommitted n)) w4, c4)"
  have "has_table (fst ?s4) (db_path (snd ?s4))"
    "top_rowid (visible ?s4) + int (length rest) < 2 ^ 63"
    using cm top CommitStep.prems(2) by simp_all
  from CommitStep.IH [OF this] obtain new where new:
    "visible s' = visible ?s4 @ new"
    "sorted_wrt (<) (map rowid new)"
    "\<forall>old\<in>set (visible ?s4). \<forall>y\<in>set new. rowid old < rowid y"
    by blast
  note new = new [simplified, unfolded cm x(1)]
  from new x(1) old show ?case
    by (intro exI [of _ "x # new"]) auto
next
  case (Step n raw rest w c v s3 r s')
  from Step(3) obtain x where x: "visible s3 = visible (w, c) @ [x]"
    "has_table (fst s3) (db_path (snd s3))"
    "top_rowid (visible (w, c)) < 2 ^ 63 - 1 \<longrightarrow> rowid x = top_rowid (visible (w, c)) + 1"
    by (rule sql_insert_row) simp
  with Step.prems(2) have id: "rowid x = top_rowid (visible (w, c)) + 1" by simp
  have old: "\<forall>old\<in>set (visible (w, c)). rowid old < rowid x"
    using top_rowid_ge [of _ "visible (w, c)"] id by fastforce
  have top: "top_rowid (visible s3) = top_rowid (visible (w, c)) + 1"
    unfolding x(1) using id by (rule top_rowid_snoc)
  have "top_rowid (visible s3) + int (length rest) < 2 ^ 63"
    using top Step.prems(2) by simp
  from Step.IH [OF x(2) this] obtain new where new:
    "visible s' = visible s3 @ new"
    "sorted_wrt (<) (map rowid new)"
    "\<forall>old\<in>set (visible s3). \<forall>y\<in>set new. rowid old < rowid y"
    by blast
  note new = new [unfolded x(1)]
  from new old show ?case
    by (intro exI [of _ "x # new"]) auto
qed

lemma pages_loop_events:
  assumes "pages_loop M D f np k n pages s = (r, s')"
  shows "\<exists>ev. trace (fst s') = trace (fst s) @ ev
           \<and> (\<forall>e\<in>set ev. loop_event e)
           \<and> encoded ev = take (length (encoded ev)) (map snd (kept n pages))
           \<and> inserted ev = take (length (inserted ev)) (kept n pages)
           \<and> (r = None \<longrightarrow> encoded ev = map snd (kept n pages) \<and> inserted ev = kept n pages)"
  using assms
proof (induction rule: pages_loop_run_induct)
  case (Done n s)
  then show ?case by simp
next
  case (Skip n raw rest w c r s')
  then obtain ev where ev: "trace (fst s') = trace w @ Print (MsgSkipping n) # ev"
    "\<forall>e\<in>set ev. loop_event e"
    "encoded ev = take (length (encoded ev)) (map snd (kept (n + 1) rest))"
    "inserted ev = take (length (inserted ev)) (kept (n + 1) rest)"
    "r = None \<longrightarrow> encoded ev = map snd (kept (n + 1) rest) \<and> inserted ev = kept (n + 1) rest"
    by auto
  with Skip(1) show ?case
    by (intro exI [of _ "Print (MsgSkipping n) # ev"]) simp
next
  case (EncodeFail n raw rest w c)
  then show ?case
    by (intro exI [of _ "[Print (MsgPage n np), Encode (strip raw)]"]) simp
next
  case (InsertFail n raw rest w c v e s3)
  from sql_insert_trace [OF InsertFail(3)] InsertFail(1) show ?case
    by (intro exI [of _ "[Print (MsgPage n np), Encode (strip raw),
          Insert f n (strip raw) (D (embedding_list v))]"]) simp
next
  case (ZeroDiv n raw rest w c v s3)
  from sql_insert_trace [OF ZeroDiv(3)] ZeroDiv(1) show ?case
    by (intro exI [of _ "[Print (MsgPage n np), Encode (strip raw),
          Insert f n (strip raw) (D (embedding_list v))]"]) simp
next
  case (CommitStep n raw rest w c v s3 w4 c4 r s')
  obtain w3 c3 where s3: "s3 = (w3, c3)" by (cases s3)
  let ?pre = "[Print (MsgPage n np), Encode (strip raw),
          Insert f n (strip raw) (D (embedding_list v)), Commit, Print (MsgCommitted n)]"
  have "trace w4 = trace w @ [Print (MsgPage n np), Encode (strip raw),
          Insert f n (strip raw) (D (embedding_list v)), Commit]"
    using sql_insert_trace [OF CommitStep(3)] sql_commit_trace [of w3 c3 w4 c4]
      CommitStep(6) s3 by simp
  with CommitStep.IH obtain ev where ev: "trace (fst s') = trace w @ ?pre @ ev"
    "\<forall>e\<in>set ev. loop_event e"
    "encoded ev = take (length (encoded ev)) (map snd (kept (n + 1) rest))"
    "inserted ev = take (length (inserted ev)) (kept (n + 1) rest)"
    "r = None \<longrightarrow> encoded ev = map snd (kept (n + 1) rest) \<and> inserted ev = kept (n + 1) rest"
    by auto
  with CommitStep(1) show ?case
    by (intro exI [of _ "?pre @ ev"]) simp
next
  case (Step n raw rest w c v s3 r s')
  let ?pre = "[Print (MsgPage n np), Encode (strip raw),
          Insert f n (strip raw) (D (embedding_list v))]"
  from Step.IH sql_insert_trace [OF Step(3)]
  obtain ev where ev: "trace (fst s') = trace w @ ?pre @ ev"
    "\<forall>e\<in>set ev. loop_event e"
    "encoded ev = take (length (encoded ev)) (map snd (kept (n + 1) rest))"
    "inserted ev = take (length (inserted ev)) (kept (n + 1) rest)"
    "r = None \<longrightarrow> encoded ev = map snd (kept (n + 1) rest) \<and> inserted ev = kept (n + 1) rest"
    by auto
  with Step(1) show ?case
    by (intro exI [of _ "?pre @ ev"]) simp
qed



lemma store_calls_append: "store_calls (xs @ ys) = store_calls xs @ store_calls ys"
  by (induction xs rule: store_calls.induct) simp_all



lemma pages_loop_completes:
  assumes "pages_loop M D f np k n pages s = (r, s')"
    and "has_table (fst s) (db_path (snd s))"
    and "k \<noteq> 0"
    and "\<forall>raw\<in>set pages. strip raw \<noteq> [] \<longrightarrow> M (strip raw) \<noteq> None"
    and "top_rowid (visible s) + int (length pages) < 2 ^ 63"
  shows "r = None"
  using assms
proof (induction rule: pages_loop_run_induct)
  case (Done n s)
  then show ?case by simp
next
  case (Skip n raw rest w c r s')
  then show ?case by simp
next
  case (EncodeFail n raw rest w c)
  then show ?case by simp
next
  case (InsertFail n raw rest w c v e s3)
  let ?w2 = "emit (Encode (strip raw)) (emit (Print (MsgPage n np)) w)"
  have "has_table ?w2 (db_path c)" "top_rowid (visible (?w2, c)) < 2 ^ 63 - 1"
    using InsertFail.prems by simp_all
  then obtain s3' where
    "sql_insert f n (strip raw) (D (embedding_list v)) (?w2, c) = (None, s3')"
    by (rule sql_insert_ok)
  with InsertFail(3) show ?case by simp
next
  case (ZeroDiv n raw rest w c v s3)
  then show ?case by simp
next
  case (CommitStep n raw rest w c v s3 w4 c4 r s')
  let ?w2 = "emit (Encode (strip raw)) (emit (Print (MsgPage n np)) w)"
  have pre: "has_table ?w2 (db_path c)" "top_rowid (visible (?w2, c)) < 2 ^ 63 - 1"
    using CommitStep.prems by simp_all
  from pre obtain s3' where
    "sql_insert f n (strip raw) (D (embedding_list v)) (?w2, c) = (None, s3')"
    "top_rowid (visible s3') = top_rowid (visible (?w2, c)) + 1"
    by (rule sql_insert_ok)
  with CommitStep(3) have top: "top_rowid (visible s3) = top_rowid (visible (w, c)) + 1"
    by simp
  from CommitStep(3) obtain x where x: "has_table (fst s3) (db_path (snd s3))"
    by (rule sql_insert_row)
  obtain w3 c3 where s3: "s3 = (w3, c3)" by (cases s3)
  from x CommitStep(6) s3
  have cm: "visible (w4, c4) = visible s3" "has_table w4 (db_path c3)"
    "db_path c4 = db_path c3"
    using sql_commit_visible [of w3 c3 w4 c4] sql_commit_effect(3,5) [of w3 c3 w4 c4]
    by simp_all
  show ?case
    using CommitStep.prems cm top by (intro CommitStep.IH) simp_all
next
  case (Step n raw rest w c v s3 r s')
  let ?w2 = "emit (Encode (strip raw)) (emit (Print (MsgPage n np)) w)"
  have pre: "has_table ?w2 (db_path c)" "top_rowid (visible (?w2, c)) < 2 ^ 63 - 1"
    using Step.prems by simp_all
  from pre obtain s3' where
    "sql_insert f n (strip raw) (D (embedding_list v)) (?w2, c) = (None, s3')"
    "top_rowid (visible s3') = top_rowid (visible (?w2, c)) + 1"
    by (rule sql_insert_ok)
  with Step(3) have top: "top_rowid (visible s3) = top_rowid (visible (w, c)) + 1"
    by simp
  from Step(3) obtain x where x: "has_table (fst s3) (db_path (snd s3))"
    by (rule sql_insert_row)
  show ?case
    using Step.prems x top by (intro Step.IH) simp_all
qed

lemma pages_loop_skip_notices:
  assumes "pages_loop M D f np k n pages s = (r, s')" and "r = None"
  shows "\<exists>ev. trace (fst s') = trace (fst s) @ ev
      \<and> (\<forall>i<length pages. strip (pages ! i) = [] \<longrightarrow>
            Print (MsgSkipping (n + int i)) \<in> set ev)"
  using assms
proof (induction rule: pages_loop_run_induct)
  case (Done n s)
  then show ?case by simp
next
  case (Skip n raw rest w c r s')
  then obtain ev where ev: "trace (fst s') = trace w @ Print (MsgSkipping n) # ev"
    "\<forall>j<length rest. strip (rest ! j) = [] \<longrightarrow> Print (MsgSkipping (n + 1 + int j)) \<in> set ev"
    by auto
  have "\<forall>i<length (raw # rest). strip ((raw # rest) ! i) = [] \<longrightarrow>
      Print (MsgSkipping (n + int i)) \<in> set (Print (MsgSkipping n) # ev)"
    using ev(2) by (intro all_less_Cons) (simp_all add: algebra_simps)
  with ev(1) show ?case by (intro exI [of _ "Print (MsgSkipping n) # ev"]) simp
next
  case (EncodeFail n raw rest w c)
  then show ?case by simp
next
  case (InsertFail n raw rest w c v e s3)
  then show ?case by simp
next
  case (ZeroDiv n raw rest w c v s3)
  then show ?case by simp
next
  case (CommitStep n raw rest w c v s3 w4 c4 r s')
  obtain w3 c3 where s3: "s3 = (w3, c3)" by (cases s3)
  let ?pre = "[Print (MsgPage n np), Encode (strip raw),
          Insert f n (strip raw) (D (embedding_list v)), Commit, Print (MsgCommitted n)]"
  have tr: "trace w4 = trace w @ [Print (MsgPage n np), Encode (strip raw),
          Insert f n (strip raw) (D (embedding_list v)), Commit]"
    using sql_insert_trace [OF CommitStep(3)] sql_commit_trace [of w3 c3 w4 c4]
      CommitStep(6) s3 by simp
  from CommitStep.IH [OF CommitStep.prems] tr
  obtain ev where ev: "trace (fst s') = trace w @ ?pre @ ev"
    "\<forall>j<length rest. strip (rest ! j) = [] \<longrightarrow> Print (MsgSkipping (n + 1 + int j)) \<in> set ev"
    by auto
  have "\<forall>i<length (raw # rest). strip ((raw # rest) ! i) = [] \<longrightarrow>
      Print (MsgSkipping (n + int i)) \<in> set (?pre @ ev)"
    using ev(2) CommitStep(1) by (intro all_less_Cons) (simp_all add: algebra_simps)
  with ev(1) show ?case by (intro exI [of _ "?pre @ ev"]) simp
next
  case (Step n raw rest w c v s3 r s')
  let ?pre = "[Print (MsgPage n np), Encode (strip raw),
          Insert f n (strip raw) (D (embedding_list v))]"
  from Step.IH [OF Step.prems] sql_insert_trace [OF Step(3)]
  obtain ev where ev: "trace (fst s') = trace w @ ?pre @ ev"
    "\<forall>j<length rest. strip (rest ! j) = [] \<longrightarrow> Print (MsgSkipping (n + 1 + int j)) \<in> set ev"
    by auto
  have "\<forall>i<length (raw # rest). strip ((raw # rest) ! i) = [] \<longrightarrow>
      Print (MsgSkipping (n + int i)) \<in> set (?pre @ ev)"
    using ev(2) Step(1) by (intro all_less_Cons) (simp_all add: algebra_simps)
  with ev(1) show ?case by (intro exI [of _ "?pre @ ev"]) simp
qed

lemma pages_loop_all_blank:
  assumes "\<forall>raw\<in>set pages. strip raw = []"
  shows "\<exists>w'. pages_loop M D f np k n pages (w, c) = (None, w', c) \<and> fs w' = fs w"
  using assms
proof (induction pages arbitrary: n w)
  case Nil
  then show ?case by simp
next
  case (Cons raw rest)
  then obtain w' where "pages_loop M D f np k (n + 1) rest (emit (Print (MsgSkipping n)) w, c)
      = (None, w', c)" "fs w' = fs (emit (Print (MsgSkipping n)) w)"
    by fastforce
  with Cons.prems show ?case by simp
qed

section \<open>The pass, the initialisation and the command line, case by case\<close>

lemma process_pdf_cases [consumes 1, case_names NoDoc Closed Aborted Completed]:
  assumes "process_pdf M D pdf_path k (w, c) = (r, w', c')"
  obtains
    (NoDoc) "\<forall>doc. fs w pdf_path \<noteq> Some (PdfFile doc)" "r = Some FileDataError"
      "w' = emit (FitzOpen pdf_path) w" "c' = c"
  | (Closed) doc where "fs w pdf_path = Some (PdfFile doc)" "\<not> is_open c"
      "r = Some ProgrammingError" "w' = emit (FitzOpen pdf_path) w" "c' = c"
  | (Aborted) doc e where "fs w pdf_path = Some (PdfFile doc)" "is_open c"
      "pages_loop M D (path_name pdf_path) (int (length doc)) k 1 doc
         (emit (Print (MsgProcessingPdf (path_name pdf_path) (int (length doc))))
            (emit (FitzOpen pdf_path) w), c) = (Some e, w', c')"
      "r = Some e"
  | (Completed) doc s3 w4 where "fs w pdf_path = Some (PdfFile doc)" "is_open c"
      "pages_loop M D (path_name pdf_path) (int (length doc)) k 1 doc
         (emit (Print (MsgProcessingPdf (path_name pdf_path) (int (length doc))))
            (emit (FitzOpen pdf_path) w), c) = (None, s3)"
      "r = None" "sql_commit s3 = (w4, c')"
      "w' = emit (Print (MsgFinished (path_name pdf_path))) w4"
proof (cases "fs w pdf_path")
  case None
  with assms show ?thesis by (intro NoDoc) (simp_all add: process_pdf_def Let_def)
next
  case (Some en)
  show ?thesis
  proof (cases en)
    case (PdfFile doc)
    note doc = Some [unfolded PdfFile]
    show ?thesis
    proof (cases "is_open c")
      case False
      with assms doc show ?thesis
        by (intro Closed [of doc]) (simp_all add: process_pdf_def Let_def)
    next
      case True
      let ?s2 = "(emit (Print (MsgProcessingPdf (path_name pdf_path) (int (length doc))))
            (emit (FitzOpen pdf_path) w), c)"
      obtain r1 s3 where run:
        "pages_loop M D (path_name pdf_path) (int (length doc)) k 1 doc ?s2 = (r1, s3)"
        by (cases "pages_loop M D (path_name pdf_path) (int (length doc)) k 1 doc ?s2")
      show ?thesis
      proof (cases r1)
        case None
        obtain w4 c4 where cm: "sql_commit s3 = (w4, c4)" by (cases "sql_commit s3")
        from assms doc True run None cm
        have "r = None" "c' = c4" "w' = emit (Print (MsgFinished (path_name pdf_path))) w4"
          by (simp_all add: process_pdf_def Let_def)
        with doc True run None cm show ?thesis
          by (intro Completed [of doc s3 w4]) simp_all
      next
        case (Some e)
        from assms doc True run Some have "r = Some e" "s3 = (w', c')"
          by (simp_all add: process_pdf_def Let_def)
        with doc True run Some show ?thesis
          by (intro Aborted [of doc e]) simp_all
      qed
    qed
  next
    case (DbFile t)
    with assms Some show ?thesis by (intro NoDoc) (simp_all add: process_pdf_def Let_def)
  next
    case OtherFile
    with assms Some show ?thesis by (intro NoDoc) (simp_all add: process_pdf_def Let_def)
  qed
qed

lemma process_pdf_completed_store:
  assumes loop: "pages_loop M D f np k n doc (w2, c) = (None, s3)"
    and tab: "has_table w2 (db_path c)"
    and cm: "sql_commit s3 = (w4, c')"
  obtains new where "stored (emit e w4) (db_path c) = visible (w2, c) @ new"
    and "pending c' = []" and "db_path c' = db_path c" and "is_open c' = is_open c"
    and "has_table w4 (db_path c)"
    and "map page_and_text new = kept n doc"
    and "\<forall>x\<in>set new. filename x = f"
    and "\<forall>x\<in>set new. \<exists>v. M (page_text x) = Some v \<and> embedding x = D (embedding_list v)"
    and "distinct (map rowid (visible (w2, c)))
           \<longrightarrow> distinct (map rowid (visible (w2, c) @ new))"
    and "visible s3 = visible (w2, c) @ new"
proof -
  have "has_table (fst (w2, c)) (db_path (snd (w2, c)))" using tab by simp
  from pages_loop_rows [OF loop this] obtain new :: "row list" where
    "visible s3 = visible (w2, c) @ new
     \<and> has_table (fst s3) (db_path (snd s3))
     \<and> db_path (snd s3) = db_path (snd (w2, c))
     \<and> is_open (snd s3) = is_open (snd (w2, c))
     \<and> map page_and_text new = take (length new) (kept n doc)
     \<and> ((None :: error option) = None \<longrightarrow> map page_and_text new = kept n doc)
     \<and> (\<forall>x\<in>set new. filename x = f)
     \<and> (\<forall>x\<in>set new. \<exists>v. M (page_text x) = Some v \<and> embedding x = D (embedding_list v))
     \<and> (distinct (map rowid (visible (w2, c))) \<longrightarrow> distinct (map rowid (visible s3)))" ..
  then have new:
    "visible s3 = visible (w2, c) @ new"
    "has_table (fst s3) (db_path (snd s3))"
    "db_path (snd s3) = db_path (snd (w2, c))" "is_open (snd s3) = is_open (snd (w2, c))"
    "map page_and_text new = kept n doc"
    "\<forall>x\<in>set new. filename x = f"
    "\<forall>x\<in>set new. \<exists>v. M (page_text x) = Some v \<and> embedding x = D (embedding_list v)"
    "distinct (map rowid (visible (w2, c))) \<longrightarrow> distinct (map rowid (visible s3))"
    by blast+
  obtain w3 c3 where s3: "s3 = (w3, c3)" by (cases s3)
  from new(2) cm s3 have tab3: "has_table w3 (db_path c3)" and cm3: "sql_commit (w3, c3) = (w4, c')"
    by simp_all
  note eff = sql_commit_effect [OF tab3 cm3]
  have dist: "distinct (map rowid (visible (w2, c)))
           \<longrightarrow> distinct (map rowid (visible (w2, c) @ new))"
    using new(8) unfolding new(1) .
  from eff new(1-7) s3 dist show ?thesis
    by (intro that [of new]) simp_all
qed

lemma process_pdf_rows:
  assumes run: "process_pdf M D pdf_path k (w, c) = (r, w', c')"
    and tab: "has_table w (db_path c)"
  obtains new :: "row list" where "visible (w', c') = visible (w, c) @ new"
    and "\<forall>doc. fs w pdf_path = Some (PdfFile doc) \<longrightarrow>
           map page_and_text new = take (length new) (kept 1 doc)"
    and "(\<forall>doc. fs w pdf_path \<noteq> Some (PdfFile doc)) \<longrightarrow> new = []"
    and "\<forall>x\<in>set new. filename x = path_name pdf_path"
    and "\<forall>x\<in>set new. \<exists>v. M (page_text x) = Some v \<and> embedding x = D (embedding_list v)"
    and "distinct (map rowid (visible (w, c))) \<longrightarrow> distinct (map rowid (visible (w', c')))"
  using run
proof (cases rule: process_pdf_cases)
  case NoDoc
  then show ?thesis by (intro that [of "[]"]) simp_all
next
  case (Closed doc)
  then show ?thesis by (intro that [of "[]"]) simp_all
next
  case (Aborted doc e)
  let ?w2 = "emit (Print (MsgProcessingPdf (path_name pdf_path) (int (length doc))))
            (emit (FitzOpen pdf_path) w)"
  have "has_table (fst (?w2, c)) (db_path (snd (?w2, c)))" using tab by simp
  from pages_loop_rows [OF Aborted(3) this] obtain new :: "row list" where
    "visible (w', c') = visible (?w2, c) @ new
     \<and> has_table (fst (w', c')) (db_path (snd (w', c')))
     \<and> db_path (snd (w', c')) = db_path (snd (?w2, c))
     \<and> is_open (snd (w', c')) = is_open (snd (?w2, c))
     \<and> map page_and_text new = take (length new) (kept 1 doc)
     \<and> (Some e = None \<longrightarrow> map page_and_text new = kept 1 doc)
     \<and> (\<forall>x\<in>set new. filename x = path_name pdf_path)
     \<and> (\<forall>x\<in>set new. \<exists>v. M (page_text x) = Some v \<and> embedding x = D (embedding_list v))
     \<and> (distinct (map rowid (visible (?w2, c))) \<longrightarrow> distinct (map rowid (visible (w', c'))))" ..
  then have new:
    "visible (w', c') = visible (?w2, c) @ new"
    "map page_and_text new = take (length new) (kept 1 doc)"
    "\<forall>x\<in>set new. filename x = path_name pdf_path"
    "\<forall>x\<in>set new. \<exists>v. M (page_text x) = Some v \<and> embedding x = D (embedding_list v)"
    "distinct (map rowid (visible (?w2, c))) \<longrightarrow> distinct (map rowid (visible (w', c')))"
    by blast+
  with Aborted(1) show ?thesis by (intro that [of new]) simp_all
next
  case (Completed doc s3 w4)
  let ?w2 = "emit (Print (MsgProcessingPdf (path_name pdf_path) (int (length doc))))
            (emit (FitzOpen pdf_path) w)"
  have tab2: "has_table ?w2 (db_path c)" using tab by simp
  from Completed(3) tab2 Completed(5) obtain new where new:
    "stored (emit (Print (MsgFinished (path_name pdf_path))) w4) (db_path c)
       = visible (?w2, c) @ new"
    "pending c' = []" "db_path c' = db_path c"
    "map page_and_text new = kept 1 doc"
    "\<forall>x\<in>set new. filename x = path_name pdf_path"
    "\<forall>x\<in>set new. \<exists>v. M (page_text x) = Some v \<and> embedding x = D (embedding_list v)"
    "distinct (map rowid (visible (?w2, c)))
           \<longrightarrow> distinct (map rowid (visible (?w2, c) @ new))"
    by (rule process_pdf_completed_store)
  have vis: "visible (w', c') = visible (w, c) @ new"
    using new(1,2,3) Completed(6) by (simp add: visible_def)
  have len: "length new = length (kept 1 doc)"
    by (metis new(4) length_map)
  have "map page_and_text new = take (length new) (kept 1 doc)"
    unfolding len using new(4) by simp
  moreover have "distinct (map rowid (visible (w, c)))
      \<longrightarrow> distinct (map rowid (visible (w', c')))"
    using new(7) unfolding vis by simp
  ultimately show ?thesis
    using vis new(5,6) Completed(1) by (intro that [of new]) simp_all
qed

lemma process_pdf_ids:
  assumes run: "process_pdf M D pdf_path k (w, c) = (r, w', c')"
    and tab: "has_table w (db_path c)"
    and ids: "\<forall>doc. fs w pdf_path = Some (PdfFile doc) \<longrightarrow>
                top_rowid (visible (w, c)) + int (length doc) < 2 ^ 63"
  shows "\<exists>new. visible (w', c') = visible (w, c) @ new
           \<and> sorted_wrt (<) (map rowid new)
           \<and> (\<forall>old\<in>set (visible (w, c)). \<forall>x\<in>set new. rowid old < rowid x)"
  using run
proof (cases rule: process_pdf_cases)
  case NoDoc
  then show ?thesis by simp
next
  case (Closed doc)
  then show ?thesis by simp
next
  case (Aborted doc e)
  let ?w2 = "emit (Print (MsgProcessingPdf (path_name pdf_path) (int (length doc))))
            (emit (FitzOpen pdf_path) w)"
  have "has_table (fst (?w2, c)) (db_path (snd (?w2, c)))"
    "top_rowid (visible (?w2, c)) + int (length doc) < 2 ^ 63"
    using tab ids Aborted(1) by simp_all
  from pages_loop_ids [OF Aborted(3) this] show ?thesis by simp
next
  case (Completed doc s3 w4)
  let ?w2 = "emit (Print (MsgProcessingPdf (path_name pdf_path) (int (length doc))))
            (emit (FitzOpen pdf_path) w)"
  have pre: "has_table (fst (?w2, c)) (db_path (snd (?w2, c)))"
    "top_rowid (visible (?w2, c)) + int (length doc) < 2 ^ 63"
    using tab ids Completed(1) by simp_all
  from pages_loop_ids [OF Completed(3) pre] obtain new where new:
    "visible s3 = visible (w, c) @ new"
    "sorted_wrt (<) (map rowid new)"
    "\<forall>old\<in>set (visible (w, c)). \<forall>x\<in>set new. rowid old < rowid x"
    by auto
  have tab2: "has_table ?w2 (db_path c)" using tab by simp
  from Completed(3) tab2 Completed(5) obtain new' where new':
    "stored (emit (Print (MsgFinished (path_name pdf_path))) w4) (db_path c)
       = visible (?w2, c) @ new'"
    "pending c' = []" "db_path c' = db_path c"
    "visible s3 = visible (?w2, c) @ new'"
    by (rule process_pdf_completed_store)
  have "visible (w', c') = visible s3"
    using new'(1,2,3,4) Completed(6) by (simp add: visible_def)
  with new show ?thesis by auto
qed

lemma process_pdf_events:
  assumes run: "process_pdf M D pdf_path k (w, c) = (r, w', c')"
  obtains ev where "trace w' = trace w @ ev"
    and "Close \<notin> set ev" and "\<forall>p. Connect p \<notin> set ev"
    and "r \<noteq> None \<longrightarrow> (\<forall>f. Print (MsgFinished f) \<notin> set ev)"
    and "\<forall>doc. fs w pdf_path = Some (PdfFile doc) \<longrightarrow>
           encoded ev = take (length (encoded ev)) (map snd (kept 1 doc))
         \<and> inserted ev = take (length (inserted ev)) (kept 1 doc)
         \<and> (r = None \<longrightarrow> encoded ev = map snd (kept 1 doc) \<and> inserted ev = kept 1 doc)"
  using run
proof (cases rule: process_pdf_cases)
  case NoDoc
  then show ?thesis by (intro that [of "[FitzOpen pdf_path]"]) simp_all
next
  case (Closed doc)
  then show ?thesis by (intro that [of "[FitzOpen pdf_path]"]) simp_all
next
  case (Aborted doc e)
  let ?pre = "[FitzOpen pdf_path,
      Print (MsgProcessingPdf (path_name pdf_path) (int (length doc)))]"
  from pages_loop_events [OF Aborted(3)] obtain ev where
    "trace (fst (w', c')) = trace (fst (emit (Print (MsgProcessingPdf (path_name pdf_path)
        (int (length doc)))) (emit (FitzOpen pdf_path) w), c)) @ ev
     \<and> (\<forall>e\<in>set ev. loop_event e)
     \<and> encoded ev = take (length (encoded ev)) (map snd (kept 1 doc))
     \<and> inserted ev = take (length (inserted ev)) (kept 1 doc)
     \<and> (Some e = None \<longrightarrow> encoded ev = map snd (kept 1 doc) \<and> inserted ev = kept 1 doc)" ..
  then have ev: "trace w' = trace w @ ?pre @ ev"
    "\<forall>e\<in>set ev. loop_event e"
    "encoded ev = take (length (encoded ev)) (map snd (kept 1 doc))"
    "inserted ev = take (length (inserted ev)) (kept 1 doc)"
    by simp_all
  note no = loop_event_not_other [OF ev(2)]
  show ?thesis
  proof (rule that [of "?pre @ ev"])
    show "trace w' = trace w @ ?pre @ ev" by (rule ev(1))
    show "Close \<notin> set (?pre @ ev)" using no(1) by simp
    show "\<forall>p. Connect p \<notin> set (?pre @ ev)" using no(2) by simp
    show "r \<noteq> None \<longrightarrow> (\<forall>f. Print (MsgFinished f) \<notin> set (?pre @ ev))" using no(3) by simp
    show "\<forall>doc. fs w pdf_path = Some (PdfFile doc) \<longrightarrow>
           encoded (?pre @ ev) = take (length (encoded (?pre @ ev))) (map snd (kept 1 doc))
         \<and> inserted (?pre @ ev) = take (length (inserted (?pre @ ev))) (kept 1 doc)
         \<and> (r = None \<longrightarrow> encoded (?pre @ ev) = map snd (kept 1 doc)
               \<and> inserted (?pre @ ev) = kept 1 doc)"
      using ev(3,4) Aborted(1,4) by simp
  qed
next
  case (Completed doc s3 w4)
  let ?pre = "[FitzOpen pdf_path,
      Print (MsgProcessingPdf (path_name pdf_path) (int (length doc)))]"
  let ?post = "[Commit, Print (MsgFinished (path_name pdf_path))]"
  obtain w3 c3 where s3: "s3 = (w3, c3)" by (cases s3)
  from pages_loop_events [OF Completed(3)] obtain ev where
    "trace (fst s3) = trace (fst (emit (Print (MsgProcessingPdf (path_name pdf_path)
        (int (length doc)))) (emit (FitzOpen pdf_path) w), c)) @ ev
     \<and> (\<forall>e\<in>set ev. loop_event e)
     \<and> encoded ev = take (length (encoded ev)) (map snd (kept 1 doc))
     \<and> inserted ev = take (length (inserted ev)) (kept 1 doc)
     \<and> ((None :: error option) = None \<longrightarrow>
          encoded ev = map snd (kept 1 doc) \<and> inserted ev = kept 1 doc)" ..
  then have ev: "trace w3 = trace w @ ?pre @ ev"
    "\<forall>e\<in>set ev. loop_event e"
    "encoded ev = map snd (kept 1 doc)"
    "inserted ev = kept 1 doc"
    using s3 by simp_all
  have tr: "trace w' = trace w @ ?pre @ ev @ ?post"
    using ev(1) sql_commit_trace [of w3 c3 w4 c'] Completed(5,6) s3 by simp
  note no = loop_event_not_other [OF ev(2)]
  show ?thesis
  proof (rule that [of "?pre @ ev @ ?post"])
    show "trace w' = trace w @ ?pre @ ev @ ?post" by (rule tr)
    show "Close \<notin> set (?pre @ ev @ ?post)" using no(1) by simp
    show "\<forall>p. Connect p \<notin> set (?pre @ ev @ ?post)" using no(2) by simp
    show "r \<noteq> None \<longrightarrow> (\<forall>f. Print (MsgFinished f) \<notin> set (?pre @ ev @ ?post))"
      using Completed(4) by simp
    show "\<forall>doc. fs w pdf_path = Some (PdfFile doc) \<longrightarrow>
           encoded (?pre @ ev @ ?post)
             = take (length (encoded (?pre @ ev @ ?post))) (map snd (kept 1 doc))
         \<and> inserted (?pre @ ev @ ?post)
             = take (length (inserted (?pre @ ev @ ?post))) (kept 1 doc)
         \<and> (r = None \<longrightarrow> encoded (?pre @ ev @ ?post) = map snd (kept 1 doc)
               \<and> inserted (?pre @ ev @ ?post) = kept 1 doc)"
      using ev(3,4) Completed(1) by (simp add: encoded_append inserted_append)
  qed
qed

lemma process_pdf_skip_notices:
  assumes run: "process_pdf M D pdf_path k (w, c) = (None, w', c')"
    and doc: "fs w pdf_path = Some (PdfFile doc)"
    and i: "i < length doc" "strip (doc ! i) = []"
  shows "Print (MsgSkipping (int i + 1)) \<in> set (events_since w w')"
  using run
proof (cases rule: process_pdf_cases)
  case (Completed doc' s3 w4)
  obtain w3 c3 where s3: "s3 = (w3, c3)" by (cases s3)
  from Completed(1) doc have [simp]: "doc' = doc" by simp
  from pages_loop_skip_notices [OF Completed(3) refl] obtain ev where
    ev: "trace w3 = trace w @ [FitzOpen pdf_path,
           Print (MsgProcessingPdf (path_name pdf_path) (int (length doc)))] @ ev"
      "\<forall>i<length doc. strip (doc ! i) = [] \<longrightarrow> Print (MsgSkipping (1 + int i)) \<in> set ev"
    using s3 by auto
  have "trace w' = trace w @ [FitzOpen pdf_path,
           Print (MsgProcessingPdf (path_name pdf_path) (int (length doc)))] @ ev
           @ [Commit, Print (MsgFinished (path_name pdf_path))]"
    using ev(1) sql_commit_trace [of w3 c3 w4 c'] Completed(5,6) s3 by simp
  from events_sinceI [OF this] ev(2) i show ?thesis by (simp add: algebra_simps)
qed simp_all

lemma process_pdf_finished:
  assumes "process_pdf M D pdf_path k (w, c) = (r, w', c')"
  shows "(\<exists>f. Print (MsgFinished f) \<in> set (events_since w w')) \<longleftrightarrow> r = None"
  using assms
proof (cases rule: process_pdf_cases)
  case NoDoc
  then show ?thesis by (simp add: events_since_def)
next
  case (Closed doc)
  then show ?thesis by (simp add: events_since_def)
next
  case (Aborted doc e)
  from assms obtain ev where ev: "trace w' = trace w @ ev"
    "r \<noteq> None \<longrightarrow> (\<forall>f. Print (MsgFinished f) \<notin> set ev)"
    by (rule process_pdf_events)
  from events_sinceI [OF ev(1)] ev(2) Aborted(4) show ?thesis by simp
next
  case (Completed doc s3 w4)
  obtain w3 c3 where s3: "s3 = (w3, c3)" by (cases s3)
  from pages_loop_events [OF Completed(3)] s3 obtain ev where
    "trace w3 = trace w @ [FitzOpen pdf_path,
       Print (MsgProcessingPdf (path_name pdf_path) (int (length doc)))] @ ev"
    by auto
  with sql_commit_trace [of w3 c3 w4 c'] Completed(5,6) s3
  have "trace w' = trace w @ [FitzOpen pdf_path,
       Print (MsgProcessingPdf (path_name pdf_path) (int (length doc)))] @ ev
       @ [Commit, Print (MsgFinished (path_name pdf_path))]"
    by simp
  from events_sinceI [OF this] Completed(4) show ?thesis by auto
qed

lemma init_db_cases [case_names Fail Ok]:
  obtains
    (Fail) "fs w path \<noteq> None" "\<forall>t. fs w path \<noteq> Some (DbFile t)"
      "init_db path w = (Inl DatabaseError, emit CreateTable (emit (Connect path) w))"
  | (Ok) w1 where "fs w path = None \<or> (\<exists>t. fs w path = Some (DbFile t))"
      "init_db path w = (Inr \<lparr>db_path = path, pending = [], is_open = True\<rparr>, w1)"
      "trace w1 = trace w @ [Connect path, CreateTable, Commit]"
      "fs w1 = (fs w)(path \<mapsto> DbFile (Some (stored w path)))"
proof (cases "fs w path")
  case None
  show ?thesis
    by (rule Ok [of "w\<lparr>fs := (fs w)(path \<mapsto> DbFile (Some (stored w path))),
          trace := trace w @ [Connect path, CreateTable, Commit]\<rparr>"])
      (use None in \<open>simp_all add: init_db_def sql_commit_def emit_def stored_def Let_def\<close>)
next
  case (Some en)
  show ?thesis
  proof (cases en)
    case (PdfFile doc)
    with Some show ?thesis
      by (intro Fail) (simp_all add: init_db_def Let_def)
  next
    case (DbFile t)
    let ?w1 = "w\<lparr>fs := (fs w)(path \<mapsto> DbFile (Some (stored w path))),
          trace := trace w @ [Connect path, CreateTable, Commit]\<rparr>"
    have "init_db path w = (Inr \<lparr>db_path = path, pending = [], is_open = True\<rparr>, ?w1)"
      using Some DbFile
      by (cases t) (simp_all add: init_db_def sql_commit_def emit_def stored_def Let_def)
    with Some DbFile show ?thesis
      by (intro Ok [of ?w1]) simp_all
  next
    case OtherFile
    with Some show ?thesis
      by (intro Fail) (simp_all add: init_db_def Let_def)
  qed
qed

lemma main_cases [consumes 1, case_names Usage NotExist LoadFail DbFail PdfFail Finished]:
  assumes "main load D argv w = (oc, w')"
  obtains
    (Usage) "length argv < 2" "oc = Exit 1" "w' = emit (Print MsgUsage) w"
  | (NotExist) "2 \<le> length argv" "fs w (argv ! 1) = None" "oc = Exit 1"
      "w' = emit (Print (MsgNotExist (argv ! 1))) w"
  | (LoadFail) "2 \<le> length argv" "fs w (argv ! 1) \<noteq> None" "load = None"
      "oc = Raised ModelLoadError" "w' = emit LoadModel (emit (Print MsgLoading) w)"
  | (DbFail) M e where "2 \<le> length argv" "fs w (argv ! 1) \<noteq> None" "load = Some M"
      "init_db ''pdf_embeddings.db''
         (emit (Print MsgLoaded) (emit LoadModel (emit (Print MsgLoading) w))) = (Inl e, w')"
      "oc = Raised e"
  | (PdfFail) M c w3 e c4 where "2 \<le> length argv" "fs w (argv ! 1) \<noteq> None" "load = Some M"
      "init_db ''pdf_embeddings.db''
         (emit (Print MsgLoaded) (emit LoadModel (emit (Print MsgLoading) w))) = (Inr c, w3)"
      "process_pdf M D (argv ! 1) 50 (w3, c) = (Some e, w', c4)"
      "oc = Raised e"
  | (Finished) M c w3 w4 c4 where "2 \<le> length argv" "fs w (argv ! 1) \<noteq> None" "load = Some M"
      "init_db ''pdf_embeddings.db''
         (emit (Print MsgLoaded) (emit LoadModel (emit (Print MsgLoading) w))) = (Inr c, w3)"
      "process_pdf M D (argv ! 1) 50 (w3, c) = (None, w4, c4)"
      "oc = Exit 0" "w' = emit (Print (MsgSaved ''pdf_embeddings.db'')) (emit Close w4)"
proof (cases "length argv < 2")
  case True
  with assms show ?thesis by (intro Usage) (simp_all add: main_def)
next
  case len: False
  show ?thesis
  proof (cases "fs w (argv ! 1) = None")
    case True
    with assms len show ?thesis by (intro NotExist) (simp_all add: main_def Let_def)
  next
    case ex: False
    show ?thesis
    proof (cases load)
      case None
      with assms len ex show ?thesis by (intro LoadFail) (simp_all add: main_def Let_def del: not_None_eq)
    next
      case (Some M)
      let ?w2 = "emit (Print MsgLoaded) (emit LoadModel (emit (Print MsgLoading) w))"
      obtain ri w3 where init: "init_db ''pdf_embeddings.db'' ?w2 = (ri, w3)"
        by (cases "init_db ''pdf_embeddings.db'' ?w2")
      show ?thesis
      proof (cases ri)
        case (Inl e)
        with assms len ex Some init have "oc = Raised e" "w' = w3"
          by (simp_all add: main_def Let_def del: not_None_eq)
        with len ex Some init Inl show ?thesis by (intro DbFail [of M e]) simp_all
      next
        case (Inr c)
        obtain r w4 c4 where run: "process_pdf M D (argv ! 1) 50 (w3, c) = (r, w4, c4)"
          by (cases "process_pdf M D (argv ! 1) 50 (w3, c)") auto
        show ?thesis
        proof (cases r)
          case None
          with assms len ex Some init Inr run
          have "oc = Exit 0" "w' = emit (Print (MsgSaved ''pdf_embeddings.db'')) (emit Close w4)"
            by (simp_all add: main_def Let_def sql_close_def del: not_None_eq)
          with len ex Some init Inr run None show ?thesis
            by (intro Finished [of M c w3 w4 c4]) simp_all
        next
          case (Some e)
          with assms len ex \<open>load = Some M\<close> init Inr run have "oc = Raised e" "w' = w4"
            by (simp_all add: main_def Let_def del: not_None_eq)
          with len ex \<open>load = Some M\<close> init Inr run Some show ?thesis
            by (intro PdfFail [of M c w3 e c4]) simp_all
        qed
      qed
    qed
  qed
qed

section \<open>The claims\<close>




text \<open>
  C2. A page whose trimmed text is empty leaves no row and no insert, whatever the
  outcome of the pass: every new row and every insert carries the number and the
  non-empty trimmed text of a page of the document, no row and no insert carries the
  number of a blank page, and the texts handed to the model are, in order, the trimmed
  texts of the non-blank pages (or the first of them, if the pass aborts), so that no
  embedding is computed for a blank page. When the pass completes, each blank page has
  been reported by its skip notice. Hence every stored row has non-empty trimmed text.
\<close>

theorem process_pdf_skips_blank_pages:
  assumes run: "process_pdf M D pdf_path k (w, c) = (r, w', c')"
    and doc: "fs w pdf_path = Some (PdfFile doc)"
    and tab: "has_table w (db_path c)"
  shows "\<exists>new. visible (w', c') = visible (w, c) @ new
     \<and> (\<forall>x\<in>set new. page_text x \<noteq> [] \<and> strip (page_text x) = page_text x
          \<and> (\<exists>i<length doc. page x = int i + 1 \<and> page_text x = strip (doc ! i)))
     \<and> (\<forall>i<length doc. strip (doc ! i) = [] \<longrightarrow>
          (\<forall>x\<in>set new. page x \<noteq> int i + 1)
          \<and> (\<forall>t. (int i + 1, t) \<notin> set (inserted (events_since w w'))))
     \<and> encoded (events_since w w')
         = take (length (encoded (events_since w w'))) (filter (\<lambda>t. t \<noteq> []) (map strip doc))
     \<and> (r = None \<longrightarrow> encoded (events_since w w') = filter (\<lambda>t. t \<noteq> []) (map strip doc)
          \<and> (\<forall>i<length doc. strip (doc ! i) = [] \<longrightarrow>
                Print (MsgSkipping (int i + 1)) \<in> set (events_since w w')))"
proof -
  from run tab obtain new :: "row list" where new:
    "visible (w', c') = visible (w, c) @ new"
    "\<forall>doc. fs w pdf_path = Some (PdfFile doc) \<longrightarrow>
           map page_and_text new = take (length new) (kept 1 doc)"
    by (rule process_pdf_rows)
  from run obtain ev where ev: "trace w' = trace w @ ev"
    "\<forall>doc. fs w pdf_path = Some (PdfFile doc) \<longrightarrow>
           encoded ev = take (length (encoded ev)) (map snd (kept 1 doc))
         \<and> inserted ev = take (length (inserted ev)) (kept 1 doc)
         \<and> (r = None \<longrightarrow> encoded ev = map snd (kept 1 doc) \<and> inserted ev = kept 1 doc)"
    by (rule process_pdf_events)
  note since = events_sinceI [OF ev(1)]
  from new(2) doc have rows: "map page_and_text new = take (length new) (kept 1 doc)" by blast
  from ev(2) doc have enc: "encoded ev = take (length (encoded ev)) (map snd (kept 1 doc))"
    and ins: "inserted ev = take (length (inserted ev)) (kept 1 doc)"
    and fin: "r = None \<longrightarrow> encoded ev = map snd (kept 1 doc)"
    by blast+
  have in_kept: "(page x, page_text x) \<in> set (kept 1 doc)" if "x \<in> set new" for x
  proof -
    from that have "page_and_text x \<in> set (map page_and_text new)" by simp
    with rows have "page_and_text x \<in> set (take (length new) (kept 1 doc))" by simp
    then show ?thesis by (auto simp: page_and_text_def dest: in_set_takeD)
  qed
  have ins_kept: "(n, t) \<in> set (kept 1 doc)" if "(n, t) \<in> set (inserted ev)" for n t
  proof -
    from that ins have "(n, t) \<in> set (take (length (inserted ev)) (kept 1 doc))" by simp
    then show ?thesis by (rule in_set_takeD)
  qed
  have A: "\<forall>x\<in>set new. page_text x \<noteq> [] \<and> strip (page_text x) = page_text x
          \<and> (\<exists>i<length doc. page x = int i + 1 \<and> page_text x = strip (doc ! i))"
  proof
    fix x assume "x \<in> set new"
    from in_kept [OF this] obtain i where "i < length doc" "page x = 1 + int i"
      "page_text x = strip (doc ! i)" "page_text x \<noteq> []"
      unfolding kept_set by blast
    then show "page_text x \<noteq> [] \<and> strip (page_text x) = page_text x
          \<and> (\<exists>i<length doc. page x = int i + 1 \<and> page_text x = strip (doc ! i))"
      by (auto simp: strip_idem)
  qed
  have B: "\<forall>i<length doc. strip (doc ! i) = [] \<longrightarrow>
          (\<forall>x\<in>set new. page x \<noteq> int i + 1)
          \<and> (\<forall>t. (int i + 1, t) \<notin> set (inserted ev))"
  proof (intro allI impI conjI ballI)
    fix i x assume i: "i < length doc" "strip (doc ! i) = []" and "x \<in> set new"
    from in_kept [OF this(3)] obtain j where "page x = 1 + int j"
      "page_text x = strip (doc ! j)" "page_text x \<noteq> []"
      unfolding kept_set by blast
    with i show "page x \<noteq> int i + 1" by auto
  next
    fix i t assume i: "i < length doc" "strip (doc ! i) = []"
    show "(int i + 1, t) \<notin> set (inserted ev)"
    proof
      assume "(int i + 1, t) \<in> set (inserted ev)"
      from ins_kept [OF this] obtain j where "int i + 1 = 1 + int j"
        "t = strip (doc ! j)" "t \<noteq> []"
        unfolding kept_set by blast
      with i show False by auto
    qed
  qed
  have C: "r = None \<longrightarrow> (\<forall>i<length doc. strip (doc ! i) = [] \<longrightarrow>
                Print (MsgSkipping (int i + 1)) \<in> set ev)"
    using process_pdf_skip_notices [OF _ doc] run since by blast
  from new(1) A B C enc fin show ?thesis
    unfolding since kept_texts by blast
qed

theorem process_pdf_skips_blank_pages_witness:
  "fs test_world ''gaps.pdf'' = Some (PdfFile [''a'', [], ''b'', '' '', ''c''])
   \<and> has_table test_world (db_path test_conn)
   \<and> (\<exists>new. visible (snd gaps_run) = visible (test_world, test_conn) @ new
     \<and> (\<forall>x\<in>set new. page_text x \<noteq> [] \<and> strip (page_text x) = page_text x
          \<and> (\<exists>i<length [''a'', [], ''b'', '' '', ''c''].
                page x = int i + 1 \<and> page_text x = strip ([''a'', [], ''b'', '' '', ''c''] ! i)))
     \<and> (\<forall>i<length [''a'', [], ''b'', '' '', ''c''].
          strip ([''a'', [], ''b'', '' '', ''c''] ! i) = [] \<longrightarrow>
          (\<forall>x\<in>set new. page x \<noteq> int i + 1)
          \<and> (\<forall>t. (int i + 1, t) \<notin> set (inserted (events_since test_world (fst (snd gaps_run))))))
     \<and> encoded (events_since test_world (fst (snd gaps_run)))
         = take (length (encoded (events_since test_world (fst (snd gaps_run)))))
             (filter (\<lambda>t. t \<noteq> []) (map strip [''a'', [], ''b'', '' '', ''c'']))
     \<and> (fst gaps_run = None \<longrightarrow>
          encoded (events_since test_world (fst (snd gaps_run)))
            = filter (\<lambda>t. t \<noteq> []) (map strip [''a'', [], ''b'', '' '', ''c''])
          \<and> (\<forall>i<length [''a'', [], ''b'', '' '', ''c''].
                strip ([''a'', [], ''b'', '' '', ''c''] ! i) = [] \<longrightarrow>
                Print (MsgSkipping (int i + 1)) \<in> set (events_since test_world (fst (snd gaps_run))))))
   \<and> fst gaps_run = None
   \<and> map page_and_text (visible (snd gaps_run)) = [(1, ''x''), (1, ''a''), (3, ''b''), (5, ''c'')]
   \<and> encoded (events_since test_world (fst (snd gaps_run))) = [''a'', ''b'', ''c'']"
proof -
  have doc: "fs test_world ''gaps.pdf'' = Some (PdfFile [''a'', [], ''b'', '' '', ''c''])"
    by (simp add: test_world_def)
  have tab: "has_table test_world (db_path test_conn)"
    by (simp add: test_conn_def test_world_def has_table_def)
  have run: "process_pdf test_model test_dumps ''gaps.pdf'' 2 (test_world, test_conn)
      = (fst gaps_run, fst (snd gaps_run), snd (snd gaps_run))"
    by (simp add: gaps_run_def)
  have snd: "(fst (snd gaps_run), snd (snd gaps_run)) = snd gaps_run" by simp
  have ok: "fst gaps_run = None" by code_simp
  have rows: "map page_and_text (visible (snd gaps_run))
      = [(1, ''x''), (1, ''a''), (3, ''b''), (5, ''c'')]"
    by code_simp
  have enc: "encoded (events_since test_world (fst (snd gaps_run))) = [''a'', ''b'', ''c'']"
    by code_simp
  from process_pdf_skips_blank_pages [OF run doc tab, unfolded snd] doc tab ok rows enc
  show ?thesis by blast
qed

text \<open>
  C3. When every page of the document has non-empty trimmed text (and the pass runs to
  its end: the model answers for every page, the commit interval is not zero and the
  ids stay below the 64-bit ceiling), processing a document of N pages adds exactly N
  rows to the store, and their page values are 1, 2, ..., N in insertion order.
\<close>

theorem process_pdf_adds_every_page:
  assumes doc: "fs w pdf_path = Some (PdfFile doc)"
    and nonblank: "\<forall>raw\<in>set doc. strip raw \<noteq> []"
    and model: "\<forall>raw\<in>set doc. M (strip raw) \<noteq> None"
    and conn: "is_open c" "has_table w (db_path c)"
    and k: "k \<noteq> 0"
    and ids: "top_rowid (visible (w, c)) + int (length doc) < 2 ^ 63"
  shows "\<exists>w' c' new. process_pdf M D pdf_path k (w, c) = (None, w', c')
           \<and> stored w' (db_path c) = visible (w, c) @ new
           \<and> pending c' = []
           \<and> length new = length doc
           \<and> map page new = [1..int (length doc)]"
proof -
  obtain r w' c' where run: "process_pdf M D pdf_path k (w, c) = (r, w', c')"
    by (cases "process_pdf M D pdf_path k (w, c)") auto
  let ?w2 = "emit (Print (MsgProcessingPdf (path_name pdf_path) (int (length doc))))
            (emit (FitzOpen pdf_path) w)"
  have pre: "has_table (fst (?w2, c)) (db_path (snd (?w2, c)))"
    "\<forall>raw\<in>set doc. strip raw \<noteq> [] \<longrightarrow> M (strip raw) \<noteq> None"
    "top_rowid (visible (?w2, c)) + int (length doc) < 2 ^ 63"
    using conn model ids by simp_all
  from run show ?thesis
  proof (cases rule: process_pdf_cases)
    case NoDoc
    with doc show ?thesis by simp
  next
    case (Closed doc')
    with conn show ?thesis by simp
  next
    case (Aborted doc' e)
    with doc have "pages_loop M D (path_name pdf_path) (int (length doc)) k 1 doc (?w2, c)
        = (Some e, w', c')" by simp
    from pages_loop_completes [OF this pre(1) k pre(2,3)] show ?thesis by simp
  next
    case (Completed doc' s3 w4)
    with doc have loop: "pages_loop M D (path_name pdf_path) (int (length doc)) k 1 doc (?w2, c)
        = (None, s3)" by simp
    have tab: "has_table ?w2 (db_path c)" using conn by simp
    from loop tab Completed(5) obtain new where new:
      "stored (emit (Print (MsgFinished (path_name pdf_path))) w4) (db_path c)
         = visible (?w2, c) @ new"
      "pending c' = []"
      "map page_and_text new = kept 1 doc"
      by (rule process_pdf_completed_store)
    have pages: "map page new = [1..int (length doc)]"
      using new(3) kept_no_blank [OF nonblank, of 1]
      by (simp add: page_of_page_and_text)
    have "length (map page new) = length doc"
      unfolding pages by simp
    then have "length new = length doc" by simp
    with run Completed(4,6) new pages show ?thesis by simp
  qed
qed

theorem process_pdf_adds_every_page_witness:
  "\<exists>w' c' new. process_pdf test_model test_dumps ''book.pdf'' 50 (test_world, test_conn)
       = (None, w', c')
     \<and> stored w' (db_path test_conn) = visible (test_world, test_conn) @ new
     \<and> pending c' = []
     \<and> length new = length [''p1'', ''p2'', ''p3'', ''p4'']
     \<and> map page new = [1..int (length [''p1'', ''p2'', ''p3'', ''p4''])]"
proof -
  have 1: "fs test_world ''book.pdf'' = Some (PdfFile [''p1'', ''p2'', ''p3'', ''p4''])"
    by (simp add: test_world_def)
  have 2: "\<forall>raw\<in>set [''p1'', ''p2'', ''p3'', ''p4'']. strip raw \<noteq> []"
    by (simp add: strip_def isspace_def)
  have 3: "\<forall>raw\<in>set [''p1'', ''p2'', ''p3'', ''p4'']. test_model (strip raw) \<noteq> None"
    by (simp add: test_model_def)
  have 4: "is_open test_conn" "has_table test_world (db_path test_conn)"
    by (simp_all add: test_conn_def test_world_def has_table_def)
  have 5: "(50::int) \<noteq> 0" by simp
  have 6: "top_rowid (visible (test_world, test_conn))
      + int (length [''p1'', ''p2'', ''p3'', ''p4'']) < 2 ^ 63"
    by (simp add: top_rowid_def visible_def stored_def test_world_def test_conn_def old_row_def)
  show ?thesis by (rule process_pdf_adds_every_page [OF 1 2 3 4 5 6])
qed

text \<open>
  C4. A pass with \<open>commit_interval = 50\<close> over a document of three pages whose second
  page is blank stores exactly two new rows, for pages 1 and 3, and makes exactly one
  commit: the final one, after the last page. The whole sequence of calls is given.
\<close>

theorem process_pdf_blank_middle_page:
  assumes doc: "fs w pdf_path = Some (PdfFile [p1, p2, p3])"
    and texts: "strip p1 \<noteq> []" "strip p2 = []" "strip p3 \<noteq> []"
    and model: "M (strip p1) = Some v1" "M (strip p3) = Some v3"
    and conn: "is_open c" "has_table w (db_path c)"
    and ids: "top_rowid (visible (w, c)) + 2 < 2 ^ 63"
  shows "\<exists>w' c' x1 x3. process_pdf M D pdf_path 50 (w, c) = (None, w', c')
      \<and> stored w' (db_path c) = visible (w, c) @ [x1, x3]
      \<and> pending c' = []
      \<and> page x1 = 1 \<and> page_text x1 = strip p1
      \<and> page x3 = 3 \<and> page_text x3 = strip p3
      \<and> events_since w w' =
           [FitzOpen pdf_path, Print (MsgProcessingPdf (path_name pdf_path) 3),
            Print (MsgPage 1 3), Encode (strip p1),
            Insert (path_name pdf_path) 1 (strip p1) (D (embedding_list v1)),
            Print (MsgSkipping 2),
            Print (MsgPage 3 3), Encode (strip p3),
            Insert (path_name pdf_path) 3 (strip p3) (D (embedding_list v3)),
            Commit, Print (MsgFinished (path_name pdf_path))]
      \<and> commit_count (events_since w w') = 1"
proof -
  let ?f = "path_name pdf_path"
  let ?top = "top_rowid (visible (w, c))"
  let ?x1 = "\<lparr>rowid = ?top + 1, filename = ?f, page = 1, page_text = strip p1,
              embedding = D (embedding_list v1)\<rparr>"
  let ?x3 = "\<lparr>rowid = ?top + 2, filename = ?f, page = 3, page_text = strip p3,
              embedding = D (embedding_list v3)\<rparr>"
  let ?w2 = "emit (Print (MsgProcessingPdf ?f 3)) (emit (FitzOpen pdf_path) w)"
  let ?w3 = "emit (Insert ?f 1 (strip p1) (D (embedding_list v1)))
               (emit (Encode (strip p1)) (emit (Print (MsgPage 1 3)) ?w2))"
  let ?c3 = "c\<lparr>pending := pending c @ [?x1]\<rparr>"
  let ?w4 = "emit (Print (MsgSkipping 2)) ?w3"
  let ?w5 = "emit (Insert ?f 3 (strip p3) (D (embedding_list v3)))
               (emit (Encode (strip p3)) (emit (Print (MsgPage 3 3)) ?w4))"
  let ?c5 = "c\<lparr>pending := pending c @ [?x1, ?x3]\<rparr>"
  have ins1: "sql_insert ?f 1 (strip p1) (D (embedding_list v1))
      (emit (Encode (strip p1)) (emit (Print (MsgPage 1 3)) ?w2), c) = (None, ?w3, ?c3)"
    using sql_insert_eq [of "emit (Encode (strip p1)) (emit (Print (MsgPage 1 3)) ?w2)" c]
      conn ids by simp
  have vis3: "visible (?w4, ?c3) = visible (w, c) @ [?x1]"
    by (simp add: visible_def)
  have top3: "top_rowid (visible (?w4, ?c3)) = ?top + 1"
    unfolding vis3 by (rule top_rowid_snoc) simp
  have ins3: "sql_insert ?f 3 (strip p3) (D (embedding_list v3))
      (emit (Encode (strip p3)) (emit (Print (MsgPage 3 3)) ?w4), ?c3) = (None, ?w5, ?c5)"
    using sql_insert_eq [of "emit (Encode (strip p3)) (emit (Print (MsgPage 3 3)) ?w4)" ?c3]
      conn ids top3 by simp
  have loop: "pages_loop M D ?f 3 50 1 [p1, p2, p3] (?w2, c) = (None, ?w5, ?c5)"
    using texts model ins1 ins3 by (simp add: Let_def)
  have vis5: "visible (?w5, ?c5) = visible (w, c) @ [?x1, ?x3]"
    by (simp add: visible_def)
  have cm: "sql_commit (?w5, ?c5) =
     ((emit Commit ?w5)\<lparr>fs := (fs ?w5)(db_path ?c5 \<mapsto> DbFile (Some (visible (?w5, ?c5))))\<rparr>,
      ?c5\<lparr>pending := []\<rparr>)"
    by (rule sql_commit_eq) (use conn in simp)
  let ?w' = "emit (Print (MsgFinished ?f))
      ((emit Commit ?w5)\<lparr>fs := (fs ?w5)(db_path ?c5 \<mapsto> DbFile (Some (visible (?w5, ?c5))))\<rparr>)"
  have run: "process_pdf M D pdf_path 50 (w, c) = (None, ?w', ?c5\<lparr>pending := []\<rparr>)"
    using doc conn loop cm by (simp add: process_pdf_def Let_def)
  have st: "stored ?w' (db_path c) = visible (w, c) @ [?x1, ?x3]"
    using vis5 by (simp add: stored_def)
  have ev: "events_since w ?w' =
           [FitzOpen pdf_path, Print (MsgProcessingPdf ?f 3),
            Print (MsgPage 1 3), Encode (strip p1),
            Insert ?f 1 (strip p1) (D (embedding_list v1)),
            Print (MsgSkipping 2),
            Print (MsgPage 3 3), Encode (strip p3),
            Insert ?f 3 (strip p3) (D (embedding_list v3)),
            Commit, Print (MsgFinished ?f)]"
    by (rule events_sinceI) (simp add: emit_def)
  have cc: "commit_count (events_since w ?w') = 1"
    unfolding ev by simp
  show ?thesis
    apply (rule exI [of _ ?w'])
    apply (rule exI [of _ "?c5\<lparr>pending := []\<rparr>"])
    apply (rule exI [of _ ?x1])
    apply (rule exI [of _ ?x3])
    using run st ev cc
    apply simp
    done
qed

theorem process_pdf_blank_middle_page_witness:
  "\<exists>w' c' x1 x3.
      process_pdf test_model test_dumps ''docs/report.pdf'' 50 (test_world, test_conn)
        = (None, w', c')
      \<and> stored w' (db_path test_conn) = visible (test_world, test_conn) @ [x1, x3]
      \<and> pending c' = []
      \<and> page x1 = 1 \<and> page_text x1 = strip ''Intro''
      \<and> page x3 = 3 \<and> page_text x3 = strip '' End ''
      \<and> events_since test_world w' =
           [FitzOpen ''docs/report.pdf'',
            Print (MsgProcessingPdf (path_name ''docs/report.pdf'') 3),
            Print (MsgPage 1 3), Encode (strip ''Intro''),
            Insert (path_name ''docs/report.pdf'') 1 (strip ''Intro'')
              (test_dumps (embedding_list (NdArray [5]))),
            Print (MsgSkipping 2),
            Print (MsgPage 3 3), Encode (strip '' End ''),
            Insert (path_name ''docs/report.pdf'') 3 (strip '' End '')
              (test_dumps (embedding_list (NdArray [3]))),
            Commit, Print (MsgFinished (path_name ''docs/report.pdf''))]
      \<and> commit_count (events_since test_world w') = 1"
proof -
  have 1: "fs test_world ''docs/report.pdf'' = Some (PdfFile [''Intro'', ''  '', '' End ''])"
    by (simp add: test_world_def)
  have 2: "strip ''Intro'' \<noteq> []" "strip ''  '' = []" "strip '' End '' \<noteq> []"
    by (simp_all add: strip_def isspace_def)
  have 3: "test_model (strip ''Intro'') = Some (NdArray [5])"
    "test_model (strip '' End '') = Some (NdArray [3])"
    by (simp_all add: test_model_def strip_def isspace_def)
  have 4: "is_open test_conn" "has_table test_world (db_path test_conn)"
    by (simp_all add: test_conn_def test_world_def has_table_def)
  have 5: "top_rowid (visible (test_world, test_conn)) + 2 < 2 ^ 63"
    by (simp add: top_rowid_def visible_def stored_def test_world_def test_conn_def old_row_def)
  show ?thesis by (rule process_pdf_blank_middle_page [OF 1 2 3 4 5])
qed

text \<open>
  C5. The embedding column of every row a pass adds is \<^verbatim>\<open>json.dumps\<close> of the list form
  of the vector that the model returned for the text stored in that row. So, for any
  parser \<open>L\<close> that reads back what \<^verbatim>\<open>json.dumps\<close> writes up to a relation \<open>approx\<close>
  on numbers (equality, or equality within the precision of the floating-point round
  trip), reading the column back gives a sequence of the same length as the model's
  vector, with values that \<open>approx\<close> relates to its values. The round trip of the JSON
  library is the hypothesis: it is a property of \<^verbatim>\<open>json.dumps\<close> and of the parser,
  which the program only calls. This holds for every outcome of the pass.
\<close>

theorem process_pdf_embedding_round_trip:
  assumes run: "process_pdf M D pdf_path k (w, c) = (r, w', c')"
    and tab: "has_table w (db_path c)"
    and round_trip: "\<forall>xs. list_all2 approx (L (D xs)) xs"
  shows "\<exists>new. visible (w', c') = visible (w, c) @ new
      \<and> (\<forall>x\<in>set new. \<exists>v. M (page_text x) = Some v
            \<and> embedding x = D (embedding_list v)
            \<and> list_all2 approx (L (embedding x)) (embedding_list v)
            \<and> length (L (embedding x)) = length (embedding_list v))"
proof -
  from run tab obtain new :: "row list" where new:
    "visible (w', c') = visible (w, c) @ new"
    "\<forall>x\<in>set new. \<exists>v. M (page_text x) = Some v \<and> embedding x = D (embedding_list v)"
    by (rule process_pdf_rows)
  have "\<exists>v. M (page_text x) = Some v
            \<and> embedding x = D (embedding_list v)
            \<and> list_all2 approx (L (embedding x)) (embedding_list v)
            \<and> length (L (embedding x)) = length (embedding_list v)"
    if "x \<in> set new" for x
  proof -
    from new(2) that obtain v where v: "M (page_text x) = Some v"
      "embedding x = D (embedding_list v)" by blast
    from round_trip have rt: "list_all2 approx (L (D (embedding_list v))) (embedding_list v)"
      by blast
    then have "length (L (D (embedding_list v))) = length (embedding_list v)"
      by (rule list_all2_lengthD)
    with v rt show ?thesis by auto
  qed
  with new(1) show ?thesis by blast
qed

theorem process_pdf_embedding_round_trip_witness:
  "has_table test_world (db_path test_conn)
   \<and> (\<forall>xs. list_all2 (=) (test_loads (test_dumps xs)) xs)
   \<and> (\<exists>new. visible (snd report_run) = visible (test_world, test_conn) @ new
      \<and> (\<forall>x\<in>set new. \<exists>v. test_model (page_text x) = Some v
            \<and> embedding x = test_dumps (embedding_list v)
            \<and> list_all2 (=) (test_loads (embedding x)) (embedding_list v)
            \<and> length (test_loads (embedding x)) = length (embedding_list v)))
   \<and> map page_text (visible (snd report_run)) = [''x'', ''Intro'', ''End'']
   \<and> map embedding (visible (snd report_run)) = [''1,'', ''11111,'', ''111,'']
   \<and> test_model ''Intro'' = Some (NdArray [5])
   \<and> test_loads ''11111,'' = [5]"
proof -
  have tab: "has_table test_world (db_path test_conn)"
    by (simp add: test_conn_def test_world_def has_table_def)
  have run: "process_pdf test_model test_dumps ''docs/report.pdf'' 50 (test_world, test_conn)
      = (fst report_run, fst (snd report_run), snd (snd report_run))"
    by (simp add: report_run_def)
  have snd: "(fst (snd report_run), snd (snd report_run)) = snd report_run" by simp
  have rt: "\<forall>xs. list_all2 (=) (test_loads (test_dumps xs)) xs"
    by (simp add: test_loads_dumps list_all2_eq [symmetric])
  have 1: "map page_text (visible (snd report_run)) = [''x'', ''Intro'', ''End'']"
    by code_simp
  have 2: "map embedding (visible (snd report_run)) = [''1,'', ''11111,'', ''111,'']"
    by code_simp
  have 3: "test_model ''Intro'' = Some (NdArray [5])" by (simp add: test_model_def)
  have 4: "test_loads ''11111,'' = [5]" by (simp add: test_loads_def)
  from process_pdf_embedding_round_trip [OF run tab rt, unfolded snd] tab rt 1 2 3 4
  show ?thesis by blast
qed

text \<open>
  C6. On a path that is free or holds an SQLite database, \<^verbatim>\<open>init_db\<close> succeeds, and
  calling it a second time succeeds as well and changes nothing: the file system after
  the second call is the one after the first, the rows of \<^verbatim>\<open>Documents\<close> are those
  that were there before the first call (none altered, duplicated or lost), and no other
  file is touched. The table is created only when it is absent.
\<close>

theorem init_db_twice:
  assumes "fs w path = None \<or> (\<exists>t. fs w path = Some (DbFile t))"
  shows "\<exists>c1 w1 c2 w2. init_db path w = (Inr c1, w1) \<and> init_db path w1 = (Inr c2, w2)
      \<and> c2 = c1 \<and> pending c1 = [] \<and> is_open c1
      \<and> fs w2 = fs w1
      \<and> has_table w1 path
      \<and> stored w1 path = stored w path \<and> stored w2 path = stored w path
      \<and> (\<forall>p. p \<noteq> path \<longrightarrow> fs w1 p = fs w p \<and> fs w2 p = fs w p)"
proof (cases path w rule: init_db_cases)
  case Fail
  with assms show ?thesis by auto
next
  case (Ok w1)
  note first = Ok
  have tab1: "has_table w1 path" and st1: "stored w1 path = stored w path"
    using first(4) by (simp_all add: has_table_def stored_def)
  show ?thesis
  proof (cases path w1 rule: init_db_cases)
    case Fail
    with first(4) show ?thesis by simp
  next
    case (Ok w2)
    have "fs w2 = fs w1"
      using Ok(4) first(4) st1 by simp
    with first(2,4) Ok(2) tab1 st1 show ?thesis
      by (simp add: stored_def)
  qed
qed

theorem init_db_twice_witness:
  "(fs empty_world ''pdf_embeddings.db'' = None
      \<or> (\<exists>t. fs empty_world ''pdf_embeddings.db'' = Some (DbFile t)))
   \<and> (fs test_world ''pdf_embeddings.db'' = None
      \<or> (\<exists>t. fs test_world ''pdf_embeddings.db'' = Some (DbFile t)))
   \<and> (\<exists>c1 w1 c2 w2. init_db ''pdf_embeddings.db'' empty_world = (Inr c1, w1)
      \<and> init_db ''pdf_embeddings.db'' w1 = (Inr c2, w2)
      \<and> c2 = c1 \<and> pending c1 = [] \<and> is_open c1
      \<and> fs w2 = fs w1
      \<and> has_table w1 ''pdf_embeddings.db''
      \<and> stored w1 ''pdf_embeddings.db'' = stored empty_world ''pdf_embeddings.db''
      \<and> stored w2 ''pdf_embeddings.db'' = stored empty_world ''pdf_embeddings.db''
      \<and> (\<forall>p. p \<noteq> ''pdf_embeddings.db'' \<longrightarrow>
            fs w1 p = fs empty_world p \<and> fs w2 p = fs empty_world p))
   \<and> (\<exists>c1 w1 c2 w2. init_db ''pdf_embeddings.db'' test_world = (Inr c1, w1)
      \<and> init_db ''pdf_embeddings.db'' w1 = (Inr c2, w2)
      \<and> c2 = c1 \<and> pending c1 = [] \<and> is_open c1
      \<and> fs w2 = fs w1
      \<and> has_table w1 ''pdf_embeddings.db''
      \<and> stored w1 ''pdf_embeddings.db'' = stored test_world ''pdf_embeddings.db''
      \<and> stored w2 ''pdf_embeddings.db'' = stored test_world ''pdf_embeddings.db''
      \<and> (\<forall>p. p \<noteq> ''pdf_embeddings.db'' \<longrightarrow>
            fs w1 p = fs test_world p \<and> fs w2 p = fs test_world p))
   \<and> stored test_world ''pdf_embeddings.db'' = [old_row]"
proof -
  have 1: "fs empty_world ''pdf_embeddings.db'' = None
      \<or> (\<exists>t. fs empty_world ''pdf_embeddings.db'' = Some (DbFile t))"
    by (simp add: empty_world_def)
  have 2: "fs test_world ''pdf_embeddings.db'' = None
      \<or> (\<exists>t. fs test_world ''pdf_embeddings.db'' = Some (DbFile t))"
    by (simp add: test_world_def)
  have 3: "stored test_world ''pdf_embeddings.db'' = [old_row]"
    by (simp add: stored_def test_world_def)
  from init_db_twice [OF 1] init_db_twice [OF 2] 1 2 3 show ?thesis by blast
qed

text \<open>
  C7. Called with no path argument, or with a path that does not exist, \<^verbatim>\<open>main\<close>
  prints one diagnostic line and exits with status 1. Nothing else happens: the file
  system is unchanged and no call is made to the store (it is neither created, opened
  nor modified).
\<close>

theorem main_usage_error:
  assumes "length argv < 2 \<or> fs w (argv ! 1) = None"
  shows "main load D argv w
       = (Exit 1, emit (Print (if length argv < 2 then MsgUsage
                               else MsgNotExist (argv ! 1))) w)
     \<and> fs (snd (main load D argv w)) = fs w
     \<and> events_since w (snd (main load D argv w))
         = [Print (if length argv < 2 then MsgUsage else MsgNotExist (argv ! 1))]"
  using assms by (auto simp: main_def Let_def events_since_def)

theorem main_usage_error_witness:
  "(length [''embed.py''] < 2 \<or> fs test_world ([''embed.py''] ! 1) = None)
   \<and> (length [''embed.py'', ''missing.pdf''] < 2
        \<or> fs test_world ([''embed.py'', ''missing.pdf''] ! 1) = None)
   \<and> (main (Some test_model) test_dumps [''embed.py''] test_world
       = (Exit 1, emit (Print (if length [''embed.py''] < 2 then MsgUsage
                               else MsgNotExist ([''embed.py''] ! 1))) test_world)
     \<and> fs (snd (main (Some test_model) test_dumps [''embed.py''] test_world)) = fs test_world
     \<and> events_since test_world (snd (main (Some test_model) test_dumps [''embed.py''] test_world))
         = [Print (if length [''embed.py''] < 2 then MsgUsage
                   else MsgNotExist ([''embed.py''] ! 1))])
   \<and> (main (Some test_model) test_dumps [''embed.py'', ''missing.pdf''] test_world
       = (Exit 1, emit (Print (if length [''embed.py'', ''missing.pdf''] < 2 then MsgUsage
                               else MsgNotExist ([''embed.py'', ''missing.pdf''] ! 1)))
                    test_world)
     \<and> fs (snd (main (Some test_model) test_dumps [''embed.py'', ''missing.pdf''] test_world))
         = fs test_world
     \<and> events_since test_world
           (snd (main (Some test_model) test_dumps [''embed.py'', ''missing.pdf''] test_world))
         = [Print (if length [''embed.py'', ''missing.pdf''] < 2 then MsgUsage
                   else MsgNotExist ([''embed.py'', ''missing.pdf''] ! 1))])
   \<and> (if length [''embed.py'', ''missing.pdf''] < 2 then MsgUsage
        else MsgNotExist ([''embed.py'', ''missing.pdf''] ! 1)) = MsgNotExist ''missing.pdf''"
proof -
  have 1: "length [''embed.py''] < 2 \<or> fs test_world ([''embed.py''] ! 1) = None"
    by simp
  have 2: "length [''embed.py'', ''missing.pdf''] < 2
        \<or> fs test_world ([''embed.py'', ''missing.pdf''] ! 1) = None"
    by (simp add: test_world_def)
  have 3: "(if length [''embed.py'', ''missing.pdf''] < 2 then MsgUsage
        else MsgNotExist ([''embed.py'', ''missing.pdf''] ! 1)) = MsgNotExist ''missing.pdf''"
    by simp
  from main_usage_error [OF 1, of "Some test_model" test_dumps]
    main_usage_error [OF 2, of "Some test_model" test_dumps] 1 2 3
  show ?thesis by blast
qed

text \<open>
  C8, as the code has it. \<^verbatim>\<open>conn.close()\<close> is a plain statement after
  \<^verbatim>\<open>process_pdf\<close>, with no \<^verbatim>\<open>try/finally\<close> and no \<^verbatim>\<open>with\<close> block around it: it is
  executed on the runs that complete the pipeline (exit status 0), once, after every
  other call to the store. A usage exit (status 1) opens no connection. When the run
  aborts with an uncaught exception, the connection is not closed.
\<close>

theorem main_closes_on_completion:
  assumes "main load D argv w = (oc, w')"
  shows "(oc = Exit 0 \<or> oc = Exit 1 \<or> (\<exists>e. oc = Raised e))
     \<and> (oc = Exit 0 \<longrightarrow>
          (\<exists>ev. events_since w w' = ev @ [Close, Print (MsgSaved ''pdf_embeddings.db'')]
             \<and> Close \<notin> set ev \<and> Connect ''pdf_embeddings.db'' \<in> set ev))
     \<and> (oc = Exit 1 \<longrightarrow> (\<forall>p. Connect p \<notin> set (events_since w w')))
     \<and> (oc \<noteq> Exit 0 \<longrightarrow> Close \<notin> set (events_since w w'))"
  using assms
proof (cases rule: main_cases)
  case Usage
  then show ?thesis by (simp add: events_since_def)
next
  case NotExist
  then show ?thesis by (simp add: events_since_def)
next
  case LoadFail
  then show ?thesis by (simp add: events_since_def)
next
  case (DbFail M e)
  let ?w2 = "emit (Print MsgLoaded) (emit LoadModel (emit (Print MsgLoading) w))"
  show ?thesis
  proof (cases "''pdf_embeddings.db''" ?w2 rule: init_db_cases)
    case Fail
    with DbFail(4) have "w' = emit CreateTable (emit (Connect ''pdf_embeddings.db'') ?w2)"
      by simp
    with DbFail(5) show ?thesis by (simp add: events_since_def)
  next
    case (Ok w1)
    with DbFail show ?thesis by simp
  qed
next
  case (PdfFail M c w3 e c4)
  let ?w2 = "emit (Print MsgLoaded) (emit LoadModel (emit (Print MsgLoading) w))"
  from PdfFail(5) obtain ev where ev: "trace w' = trace w3 @ ev" "Close \<notin> set ev"
    by (rule process_pdf_events)
  show ?thesis
  proof (cases "''pdf_embeddings.db''" ?w2 rule: init_db_cases)
    case Fail
    with PdfFail show ?thesis by simp
  next
    case (Ok w1)
    with PdfFail(4) have "trace w3 = trace w @ [Print MsgLoading, LoadModel, Print MsgLoaded,
        Connect ''pdf_embeddings.db'', CreateTable, Commit]" by simp
    with ev have "events_since w w' = [Print MsgLoading, LoadModel, Print MsgLoaded,
        Connect ''pdf_embeddings.db'', CreateTable, Commit] @ ev"
      by (intro events_sinceI) simp
    with ev(2) PdfFail(6) show ?thesis by simp
  qed
next
  case (Finished M c w3 w4 c4)
  let ?w2 = "emit (Print MsgLoaded) (emit LoadModel (emit (Print MsgLoading) w))"
  from Finished(5) obtain ev where ev: "trace w4 = trace w3 @ ev" "Close \<notin> set ev"
    by (rule process_pdf_events)
  show ?thesis
  proof (cases "''pdf_embeddings.db''" ?w2 rule: init_db_cases)
    case Fail
    with Finished show ?thesis by simp
  next
    case (Ok w1)
    let ?pre = "[Print MsgLoading, LoadModel, Print MsgLoaded,
        Connect ''pdf_embeddings.db'', CreateTable, Commit]"
    from Ok Finished(4) have "trace w3 = trace w @ ?pre" by simp
    with ev Finished(7) have "events_since w w'
        = (?pre @ ev) @ [Close, Print (MsgSaved ''pdf_embeddings.db'')]"
      by (intro events_sinceI) simp
    moreover have "Close \<notin> set (?pre @ ev)" using ev(2) by simp
    moreover have "Connect ''pdf_embeddings.db'' \<in> set (?pre @ ev)" by simp
    ultimately have "\<exists>ev. events_since w w' = ev @ [Close, Print (MsgSaved ''pdf_embeddings.db'')]
             \<and> Close \<notin> set ev \<and> Connect ''pdf_embeddings.db'' \<in> set ev"
      by blast
    with Finished(6) show ?thesis by simp
  qed
qed

theorem main_closes_on_completion_witness:
  "fst (main (Some test_model) test_dumps [''embed.py'', ''docs/report.pdf''] test_world)
     = Exit 0
   \<and> (\<exists>ev. events_since test_world
          (snd (main (Some test_model) test_dumps [''embed.py'', ''docs/report.pdf''] test_world))
          = ev @ [Close, Print (MsgSaved ''pdf_embeddings.db'')]
        \<and> Close \<notin> set ev \<and> Connect ''pdf_embeddings.db'' \<in> set ev)
   \<and> fst notes_run \<noteq> Exit 0
   \<and> Close \<notin> set (events_since test_world (snd notes_run))"
proof -
  have 1: "main (Some test_model) test_dumps [''embed.py'', ''docs/report.pdf''] test_world
     = (fst (main (Some test_model) test_dumps [''embed.py'', ''docs/report.pdf''] test_world),
        snd (main (Some test_model) test_dumps [''embed.py'', ''docs/report.pdf''] test_world))"
    by simp
  have 2: "fst (main (Some test_model) test_dumps [''embed.py'', ''docs/report.pdf''] test_world)
     = Exit 0"
    by code_simp
  have 3: "main (Some test_model) test_dumps [''embed.py'', ''notes.txt''] test_world
     = (fst notes_run, snd notes_run)"
    by (simp add: notes_run_def)
  have 4: "fst notes_run \<noteq> Exit 0" by code_simp
  from main_closes_on_completion [OF 1] main_closes_on_completion [OF 3] 2 4
  show ?thesis by blast
qed

text \<open>
  C8, as the claim states it, fails when \<^verbatim>\<open>process_pdf\<close> raises: on a path that exists
  but is not a readable document the connection has been opened by \<^verbatim>\<open>init_db\<close>, the
  exception of \<^verbatim>\<open>fitz.open\<close> ends the run, and \<^verbatim>\<open>conn.close()\<close> is never reached.
\<close>

theorem main_close_counterexample:
  "fst notes_run = Raised FileDataError
   \<and> trace (snd notes_run)
       = [Print MsgLoading, LoadModel, Print MsgLoaded, Connect ''pdf_embeddings.db'',
          CreateTable, Commit, FitzOpen ''notes.txt'']
   \<and> Connect ''pdf_embeddings.db'' \<in> set (trace (snd notes_run))
   \<and> Close \<notin> set (trace (snd notes_run))"
proof -
  have 1: "fst notes_run = Raised FileDataError" by code_simp
  have 2: "trace (snd notes_run)
       = [Print MsgLoading, LoadModel, Print MsgLoaded, Connect ''pdf_embeddings.db'',
          CreateTable, Commit, FitzOpen ''notes.txt'']"
    by code_simp
  show ?thesis unfolding 2 using 1 by simp
qed

text \<open>
  C9. A run exits with status 0 exactly when \<^verbatim>\<open>process_pdf\<close> has run to its end
  (it has printed its closing line). Blank pages are no error: on a readable document
  whose pages are all blank, with the model loaded and the store path free or a
  database, the run exits with status 0 and leaves the stored rows as they were.
\<close>

theorem main_exit_status_zero:
  assumes "main load D argv w = (oc, w')"
  shows "((\<exists>f. Print (MsgFinished f) \<in> set (events_since w w')) \<longleftrightarrow> oc = Exit 0)
     \<and> (2 \<le> length argv
          \<and> (\<exists>doc. fs w (argv ! 1) = Some (PdfFile doc) \<and> (\<forall>raw\<in>set doc. strip raw = []))
          \<and> load \<noteq> None
          \<and> (fs w ''pdf_embeddings.db'' = None
                \<or> (\<exists>t. fs w ''pdf_embeddings.db'' = Some (DbFile t)))
        \<longrightarrow> oc = Exit 0
            \<and> stored w' ''pdf_embeddings.db'' = stored w ''pdf_embeddings.db'')"
proof -
  let ?w2 = "emit (Print MsgLoaded) (emit LoadModel (emit (Print MsgLoading) w))"
  let ?db = "''pdf_embeddings.db''"
  let ?blank = "2 \<le> length argv
          \<and> (\<exists>doc. fs w (argv ! 1) = Some (PdfFile doc) \<and> (\<forall>raw\<in>set doc. strip raw = []))
          \<and> load \<noteq> None
          \<and> (fs w ?db = None \<or> (\<exists>t. fs w ?db = Some (DbFile t)))"
  have init_tr: "trace w3 = trace w @ [Print MsgLoading, LoadModel, Print MsgLoaded,
        Connect ?db, CreateTable, Commit]"
    if "init_db ?db ?w2 = (Inr c, w3)" for c w3
    using that by (cases ?db ?w2 rule: init_db_cases) simp_all
  from assms show ?thesis
  proof (cases rule: main_cases)
    case Usage
    then show ?thesis by (simp add: events_since_def)
  next
    case NotExist
    then show ?thesis by (auto simp: events_since_def)
  next
    case LoadFail
    then show ?thesis by (simp add: events_since_def)
  next
    case (DbFail M e)
    show ?thesis
    proof (cases ?db ?w2 rule: init_db_cases)
      case Fail
      with DbFail(4) have "w' = emit CreateTable (emit (Connect ?db) ?w2)" by simp
      with DbFail(5) Fail(1,2) show ?thesis by (auto simp: events_since_def)
    next
      case (Ok w1)
      with DbFail show ?thesis by simp
    qed
  next
    case (PdfFail M c w3 e c4)
    let ?pre = "[Print MsgLoading, LoadModel, Print MsgLoaded, Connect ?db, CreateTable, Commit]"
    from PdfFail(5) obtain ev where ev: "trace w' = trace w3 @ ev"
      "Some e \<noteq> None \<longrightarrow> (\<forall>f. Print (MsgFinished f) \<notin> set ev)"
      by (rule process_pdf_events)
    from init_tr [OF PdfFail(4)] ev(1) have "events_since w w' = ?pre @ ev"
      by (intro events_sinceI) simp
    with ev(2) have nofin: "\<not> (\<exists>f. Print (MsgFinished f) \<in> set (events_since w w'))"
      by simp
    have "\<not> ?blank"
    proof
      assume b: ?blank
      then obtain doc where doc: "fs w (argv ! 1) = Some (PdfFile doc)"
        "\<forall>raw\<in>set doc. strip raw = []" by blast
      from b doc(1) have ne: "argv ! 1 \<noteq> ?db" by auto
      show False
      proof (cases ?db ?w2 rule: init_db_cases)
        case Fail
        with PdfFail(4) show False by simp
      next
        case (Ok w1)
        with PdfFail(4) have c: "c = \<lparr>db_path = ?db, pending = [], is_open = True\<rparr>"
          and fs3: "fs w3 = (fs w)(?db \<mapsto> DbFile (Some (stored w ?db)))"
          by simp_all
        from fs3 ne doc(1) have doc3: "fs w3 (argv ! 1) = Some (PdfFile doc)" by simp
        let ?f = "path_name (argv ! 1)"
        from pages_loop_all_blank [OF doc(2), of M D ?f "int (length doc)" 50 1
            "emit (Print (MsgProcessingPdf ?f (int (length doc)))) (emit (FitzOpen (argv ! 1)) w3)" c]
        obtain w5 where "pages_loop M D ?f (int (length doc)) 50 1 doc
            (emit (Print (MsgProcessingPdf ?f (int (length doc)))) (emit (FitzOpen (argv ! 1)) w3), c)
            = (None, w5, c)" by blast
        with doc3 c have "fst (process_pdf M D (argv ! 1) 50 (w3, c)) = None"
          by (simp add: process_pdf_def Let_def split: prod.splits)
        with PdfFail(5) show False by simp
      qed
    qed
    with nofin PdfFail(6) show ?thesis by simp
  next
    case (Finished M c w3 w4 c4)
    let ?pre = "[Print MsgLoading, LoadModel, Print MsgLoaded, Connect ?db, CreateTable, Commit]"
    from process_pdf_finished [OF Finished(5)] obtain f where
      f: "Print (MsgFinished f) \<in> set (events_since w3 w4)" by blast
    from Finished(5) obtain ev where ev: "trace w4 = trace w3 @ ev"
      by (rule process_pdf_events)
    from f events_sinceI [OF ev] have fin: "Print (MsgFinished f) \<in> set ev" by simp
    from init_tr [OF Finished(4)] ev Finished(7)
    have "events_since w w' = ?pre @ ev @ [Close, Print (MsgSaved ?db)]"
      by (intro events_sinceI) simp
    with fin have A: "\<exists>f. Print (MsgFinished f) \<in> set (events_since w w')" by auto
    have B: "stored w' ?db = stored w ?db" if b: ?blank
    proof -
      from b obtain doc where doc: "fs w (argv ! 1) = Some (PdfFile doc)"
        "\<forall>raw\<in>set doc. strip raw = []" by blast
      from b doc(1) have ne: "argv ! 1 \<noteq> ?db" by auto
      show ?thesis
      proof (cases ?db ?w2 rule: init_db_cases)
        case Fail
        with Finished(4) show ?thesis by simp
      next
        case (Ok w1)
        with Finished(4) have c: "c = \<lparr>db_path = ?db, pending = [], is_open = True\<rparr>"
          and fs3: "fs w3 = (fs w)(?db \<mapsto> DbFile (Some (stored w ?db)))"
          by simp_all
        from fs3 have tab3: "has_table w3 (db_path c)" and st3: "stored w3 ?db = stored w ?db"
          using c by (simp_all add: has_table_def stored_def)
        from fs3 ne doc(1) have doc3: "fs w3 (argv ! 1) = Some (PdfFile doc)" by simp
        from Finished(5) tab3 obtain new :: "row list" where new:
          "visible (w4, c4) = visible (w3, c) @ new"
          "\<forall>doc. fs w3 (argv ! 1) = Some (PdfFile doc) \<longrightarrow>
             map page_and_text new = take (length new) (kept 1 doc)"
          by (rule process_pdf_rows)
        have "kept 1 doc = []"
          using doc(2) kept_texts [of 1 doc] by (simp add: filter_empty_conv)
        with new(2) doc3 have "new = []" by simp
        from Finished(5) have "pending c4 = [] \<and> db_path c4 = db_path c"
        proof (cases rule: process_pdf_cases)
          case (Completed doc' s3 w4')
          let ?w = "emit (Print (MsgProcessingPdf (path_name (argv ! 1)) (int (length doc'))))
            (emit (FitzOpen (argv ! 1)) w3)"
          have "has_table ?w (db_path c)" using tab3 by simp
          from Completed(3) this Completed(5) obtain new' where
            "pending c4 = []" "db_path c4 = db_path c"
            by (rule process_pdf_completed_store)
          then show ?thesis by simp
        qed simp_all
        with new(1) \<open>new = []\<close> c have "stored w4 ?db = stored w3 ?db"
          by (simp add: visible_def)
        with st3 Finished(7) show ?thesis by simp
      qed
    qed
    from A B Finished(6) show ?thesis by blast
  qed
qed

theorem main_exit_status_zero_witness:
  "((\<exists>f. Print (MsgFinished f) \<in> set (events_since test_world
        (snd (main (Some test_model) test_dumps [''embed.py'', ''blank.pdf''] test_world))))
      \<longleftrightarrow> fst (main (Some test_model) test_dumps [''embed.py'', ''blank.pdf''] test_world)
            = Exit 0)
   \<and> (2 \<le> length [''embed.py'', ''blank.pdf'']
          \<and> (\<exists>doc. fs test_world ([''embed.py'', ''blank.pdf''] ! 1) = Some (PdfFile doc)
                \<and> (\<forall>raw\<in>set doc. strip raw = []))
          \<and> Some test_model \<noteq> None
          \<and> (fs test_world ''pdf_embeddings.db'' = None
                \<or> (\<exists>t. fs test_world ''pdf_embeddings.db'' = Some (DbFile t))))
   \<and> fst (main (Some test_model) test_dumps [''embed.py'', ''blank.pdf''] test_world) = Exit 0
   \<and> stored (snd (main (Some test_model) test_dumps [''embed.py'', ''blank.pdf''] test_world))
        ''pdf_embeddings.db'' = stored test_world ''pdf_embeddings.db''"
proof -
  have run: "main (Some test_model) test_dumps [''embed.py'', ''blank.pdf''] test_world
     = (fst (main (Some test_model) test_dumps [''embed.py'', ''blank.pdf''] test_world),
        snd (main (Some test_model) test_dumps [''embed.py'', ''blank.pdf''] test_world))"
    by simp
  have "fs test_world ([''embed.py'', ''blank.pdf''] ! 1) = Some (PdfFile [[], '' ''])
      \<and> (\<forall>raw\<in>set [[], '' '']. strip raw = [])"
    by (simp add: test_world_def strip_def isspace_def)
  then have doc: "\<exists>doc. fs test_world ([''embed.py'', ''blank.pdf''] ! 1) = Some (PdfFile doc)
                \<and> (\<forall>raw\<in>set doc. strip raw = [])"
    by blast
  have db: "fs test_world ''pdf_embeddings.db'' = None
                \<or> (\<exists>t. fs test_world ''pdf_embeddings.db'' = Some (DbFile t))"
    by (simp add: test_world_def)
  have len: "2 \<le> length [''embed.py'', ''blank.pdf'']" by simp
  have ld: "Some test_model \<noteq> None" by simp
  from main_exit_status_zero [OF run] len doc ld db show ?thesis by blast
qed

text \<open>
  C10, as the code has it. Within one processing pass the rows are inserted in strictly
  increasing page order, every inserted row gets an id that is not in use, and the
  stored filename of every new row is the base name of the input path (its last
  component, which holds no \<^verbatim>\<open>/\<close>), not the full path; this holds for every outcome
  of the pass, also when it aborts partway. The ids follow the order of insertion as
  long as SQLite's rule of the largest id plus one applies: when the largest id present
  plus the number of pages of the document stays below \<open>2^63\<close>, every inserted row
  gets an id strictly greater than every id present before it, the ids of the new rows
  increase in insertion order, and a table that was ordered by id stays so.
\<close>

theorem process_pdf_insertion_order:
  assumes run: "process_pdf M D pdf_path k (w, c) = (r, w', c')"
    and tab: "has_table w (db_path c)"
  shows "\<exists>new. visible (w', c') = visible (w, c) @ new
      \<and> sorted_wrt (<) (map page new)
      \<and> (\<forall>x\<in>set new. filename x = path_name pdf_path)
      \<and> CHR ''/'' \<notin> set (path_name pdf_path)
      \<and> (\<forall>dir name. pdf_path = dir @ ''/'' @ name \<and> CHR ''/'' \<notin> set name
            \<and> name \<noteq> [] \<and> name \<noteq> ''.'' \<longrightarrow> path_name pdf_path = name)
      \<and> (distinct (map rowid (visible (w, c)))
            \<longrightarrow> distinct (map rowid (visible (w', c'))))
      \<and> ((\<forall>doc. fs w pdf_path = Some (PdfFile doc)
              \<longrightarrow> top_rowid (visible (w, c)) + int (length doc) < 2 ^ 63)
            \<longrightarrow> sorted_wrt (<) (map rowid new)
              \<and> (\<forall>old\<in>set (visible (w, c)). \<forall>x\<in>set new. rowid old < rowid x)
              \<and> (sorted_wrt (<) (map rowid (visible (w, c)))
                    \<longrightarrow> sorted_wrt (<) (map rowid (visible (w', c')))))"
proof -
  from run tab obtain new :: "row list" where new:
    "visible (w', c') = visible (w, c) @ new"
    "\<forall>doc. fs w pdf_path = Some (PdfFile doc) \<longrightarrow>
           map page_and_text new = take (length new) (kept 1 doc)"
    "(\<forall>doc. fs w pdf_path \<noteq> Some (PdfFile doc)) \<longrightarrow> new = []"
    "\<forall>x\<in>set new. filename x = path_name pdf_path"
    "distinct (map rowid (visible (w, c))) \<longrightarrow> distinct (map rowid (visible (w', c')))"
    by (rule process_pdf_rows [where M = M and D = D])
  have pages: "sorted_wrt (<) (map page new)"
  proof (cases "\<exists>doc. fs w pdf_path = Some (PdfFile doc)")
    case True
    then obtain doc where "fs w pdf_path = Some (PdfFile doc)" ..
    with new(2) have "map page new = take (length new) (map fst (kept 1 doc))"
      by (simp add: page_of_page_and_text take_map)
    with kept_sorted [of 1 doc] show ?thesis by (simp add: sorted_wrt_take)
  next
    case False
    with new(3) show ?thesis by simp
  qed
  have base: "\<forall>dir name. pdf_path = dir @ ''/'' @ name \<and> CHR ''/'' \<notin> set name
            \<and> name \<noteq> [] \<and> name \<noteq> ''.'' \<longrightarrow> path_name pdf_path = name"
    using path_name_base by blast
  have ids: "sorted_wrt (<) (map rowid new)
              \<and> (\<forall>old\<in>set (visible (w, c)). \<forall>x\<in>set new. rowid old < rowid x)
              \<and> (sorted_wrt (<) (map rowid (visible (w, c)))
                    \<longrightarrow> sorted_wrt (<) (map rowid (visible (w', c'))))"
    if below: "\<forall>doc. fs w pdf_path = Some (PdfFile doc)
              \<longrightarrow> top_rowid (visible (w, c)) + int (length doc) < 2 ^ 63"
  proof -
    from process_pdf_ids [OF run tab below] obtain new' where new':
      "visible (w', c') = visible (w, c) @ new'"
      "sorted_wrt (<) (map rowid new')"
      "\<forall>old\<in>set (visible (w, c)). \<forall>x\<in>set new'. rowid old < rowid x"
      by blast
    from new'(1) new(1) have "new' = new" by simp
    with new' show ?thesis by (auto simp: sorted_wrt_append)
  qed
  from new(1,4,5) pages base path_name_no_slash [of pdf_path] ids
  show ?thesis by blast
qed

theorem process_pdf_insertion_order_witness:
  "has_table test_world (db_path test_conn)
   \<and> fst report_run = None
   \<and> top_rowid (visible (test_world, test_conn)) + int (length [''Intro'', ''  '', '' End ''])
       < 2 ^ 63
   \<and> (\<exists>new. visible (snd report_run) = visible (test_world, test_conn) @ new
      \<and> sorted_wrt (<) (map page new)
      \<and> (\<forall>x\<in>set new. filename x = path_name ''docs/report.pdf'')
      \<and> CHR ''/'' \<notin> set (path_name ''docs/report.pdf'')
      \<and> (\<forall>dir name. ''docs/report.pdf'' = dir @ ''/'' @ name \<and> CHR ''/'' \<notin> set name
            \<and> name \<noteq> [] \<and> name \<noteq> ''.'' \<longrightarrow> path_name ''docs/report.pdf'' = name)
      \<and> (distinct (map rowid (visible (test_world, test_conn)))
            \<longrightarrow> distinct (map rowid (visible (snd report_run))))
      \<and> sorted_wrt (<) (map rowid new)
      \<and> (\<forall>old\<in>set (visible (test_world, test_conn)). \<forall>x\<in>set new. rowid old < rowid x)
      \<and> (sorted_wrt (<) (map rowid (visible (test_world, test_conn)))
            \<longrightarrow> sorted_wrt (<) (map rowid (visible (snd report_run)))))
   \<and> map rowid (visible (snd report_run)) = [7, 8, 9]
   \<and> map page (visible (snd report_run)) = [1, 1, 3]
   \<and> map filename (visible (snd report_run)) = [''old.pdf'', ''report.pdf'', ''report.pdf'']"
proof -
  have tab: "has_table test_world (db_path test_conn)"
    by (simp add: test_conn_def test_world_def has_table_def)
  have run: "process_pdf test_model test_dumps ''docs/report.pdf'' 50 (test_world, test_conn)
      = (fst report_run, fst (snd report_run), snd (snd report_run))"
    by (simp add: report_run_def)
  have snd: "(fst (snd report_run), snd (snd report_run)) = snd report_run" by simp
  have ok: "fst report_run = None" by code_simp
  have doc: "fs test_world ''docs/report.pdf'' = Some (PdfFile [''Intro'', ''  '', '' End ''])"
    by (simp add: test_world_def)
  have below: "top_rowid (visible (test_world, test_conn))
      + int (length [''Intro'', ''  '', '' End '']) < 2 ^ 63"
    by (simp add: top_rowid_def visible_def stored_def test_world_def test_conn_def old_row_def)
  with doc have below': "\<forall>doc. fs test_world ''docs/report.pdf'' = Some (PdfFile doc)
      \<longrightarrow> top_rowid (visible (test_world, test_conn)) + int (length doc) < 2 ^ 63"
    by simp
  have ids: "map rowid (visible (snd report_run)) = [7, 8, 9]"
    by code_simp
  have pgs: "map page (visible (snd report_run)) = [1, 1, 3]"
    by code_simp
  have names: "map filename (visible (snd report_run))
        = [''old.pdf'', ''report.pdf'', ''report.pdf'']"
    by code_simp
  from process_pdf_insertion_order [OF run tab, unfolded snd] below'
  have "\<exists>new. visible (snd report_run) = visible (test_world, test_conn) @ new
      \<and> sorted_wrt (<) (map page new)
      \<and> (\<forall>x\<in>set new. filename x = path_name ''docs/report.pdf'')
      \<and> CHR ''/'' \<notin> set (path_name ''docs/report.pdf'')
      \<and> (\<forall>dir name. ''docs/report.pdf'' = dir @ ''/'' @ name \<and> CHR ''/'' \<notin> set name
            \<and> name \<noteq> [] \<and> name \<noteq> ''.'' \<longrightarrow> path_name ''docs/report.pdf'' = name)
      \<and> (distinct (map rowid (visible (test_world, test_conn)))
            \<longrightarrow> distinct (map rowid (visible (snd report_run))))
      \<and> sorted_wrt (<) (map rowid new)
      \<and> (\<forall>old\<in>set (visible (test_world, test_conn)). \<forall>x\<in>set new. rowid old < rowid x)
      \<and> (sorted_wrt (<) (map rowid (visible (test_world, test_conn)))
            \<longrightarrow> sorted_wrt (<) (map rowid (visible (snd report_run))))"
    by blast
  with tab ok below ids pgs names show ?thesis by blast
qed

text \<open>
  C10, as the claim states it, fails on a store that holds the largest id there is. The
  table is declared without \<^verbatim>\<open>AUTOINCREMENT\<close>, so SQLite then gives each new row an
  unused id found at random: whatever the search comes up with is below the id already
  present (\<open>next_rowid_at_ceiling\<close>). Here the four rows of the pass get the ids 5, 4,
  3 and 2, each smaller than the id \<open>2^63 - 1\<close> that was there before, and decreasing
  in insertion order, while the pass runs to its end.
\<close>

theorem insertion_order_counterexample:
  "visible (ceiling_world, test_conn) = [top_row]
   \<and> rowid top_row = 9223372036854775807
   \<and> fst ceiling_run = None
   \<and> map rowid (visible (snd ceiling_run)) = [9223372036854775807, 5, 4, 3, 2]
   \<and> map page (visible (snd ceiling_run)) = [1, 1, 2, 3, 4]
   \<and> \<not> rowid top_row < 5
   \<and> \<not> sorted_wrt (<) [5, 4, 3, 2 :: int]"
proof -
  have 1: "visible (ceiling_world, test_conn) = [top_row]"
    by (simp add: visible_def stored_def ceiling_world_def test_conn_def)
  have 2: "rowid top_row = 9223372036854775807" by (simp add: top_row_def)
  have 3: "fst ceiling_run = None" by code_simp
  have 4: "map rowid (visible (snd ceiling_run)) = [9223372036854775807, 5, 4, 3, 2]"
    by code_simp
  have 5: "map page (visible (snd ceiling_run)) = [1, 1, 2, 3, 4]"
    by code_simp
  from 1 2 3 4 5 show ?thesis by simp
qed

end
